theory Spec2Isabelle
  imports Complex_Main "HOL-Library.Word" "HOL-Library.AList"
begin

section \<open>Winsynth: note registry, oscillator bank and the block engine\<close>

text \<open>
  The development follows \<^verbatim>\<open>src/AudioManager.cpp\<close> (key table, active-note registry,
  oscillators, mixing callback) and \<^verbatim>\<open>noiseMaker.h\<close> (the \<^verbatim>\<open>NoiseMaker<T>\<close> template,
  instantiated at \<^verbatim>\<open>T = int\<close>).

  Conventions of the embedding.
  \<^item> \<^verbatim>\<open>double\<close> is read as \<^typ>\<open>real\<close>; infinities and NaN are outside the model.
    In \<^verbatim>\<open>AudioManager\<close> every arithmetic operation, \<^verbatim>\<open>sin\<close> and \<^verbatim>\<open>fmod\<close> is the exact real
    operation. In the generation loop of \<^verbatim>\<open>NoiseMaker\<close> every \<^verbatim>\<open>double\<close> result that
    arithmetic produces (the time step, the scaled sample, the updated clock) passes
    through a function \<open>fl\<close>, the rounding of the machine, which the loop takes as a
    parameter: what is proved of the loop for every \<open>fl\<close> holds whatever the rounding
    is, and \<open>fl = id\<close> is exact arithmetic. \<^verbatim>\<open>fmin\<close>, \<^verbatim>\<open>fmax\<close> and the conversion of an
    \<^verbatim>\<open>int\<close> to \<^verbatim>\<open>double\<close> are exact on the machine too.
  \<^item> \<^verbatim>\<open>unsigned int\<close> is \<^typ>\<open>32 word\<close>, \<^verbatim>\<open>int\<close> is a \<^typ>\<open>32 word\<close> read with \<^const>\<open>sint\<close>, and
    \<^verbatim>\<open>WPARAM\<close> (an x64 build) is \<^typ>\<open>64 word\<close>.
  \<^item> \<^verbatim>\<open>std::unordered_map<WPARAM, double>\<close> is an association list. Its iteration order
    is the list order; no statement below depends on it.
\<close>

type_synonym WPARAM = "64 word"
type_synonym u32 = "32 word"
type_synonym s32 = "32 word"

subsection \<open>Constants of AudioManager.cpp\<close>

definition PI :: real where
  "PI = 3.14159265358979323846"

definition TWO_PI :: real where
  "TWO_PI = 2.0 * PI"

definition NoteFrequencies_C4 :: real where "NoteFrequencies_C4 = 261.626"
definition NoteFrequencies_D4 :: real where "NoteFrequencies_D4 = 293.665"
definition NoteFrequencies_E4 :: real where "NoteFrequencies_E4 = 329.628"
definition NoteFrequencies_F4 :: real where "NoteFrequencies_F4 = 349.228"
definition NoteFrequencies_G4 :: real where "NoteFrequencies_G4 = 392.000"
definition NoteFrequencies_A4 :: real where "NoteFrequencies_A4 = 440.000"
definition NoteFrequencies_B4 :: real where "NoteFrequencies_B4 = 493.883"
definition NoteFrequencies_C5 :: real where "NoteFrequencies_C5 = 523.25"
definition NoteFrequencies_D5 :: real where "NoteFrequencies_D5 = 587.33"
definition NoteFrequencies_E5 :: real where "NoteFrequencies_E5 = 659.25"
definition NoteFrequencies_F5 :: real where "NoteFrequencies_F5 = 698.46"
definition NoteFrequencies_G5 :: real where "NoteFrequencies_G5 = 783.99"
definition NoteFrequencies_A5 :: real where "NoteFrequencies_A5 = 880.00"
definition NoteFrequencies_B5 :: real where "NoteFrequencies_B5 = 987.77"
definition NoteFrequencies_C6 :: real where "NoteFrequencies_C6 = 1046.50"
definition NoteFrequencies_D6 :: real where "NoteFrequencies_D6 = 1174.66"
definition NoteFrequencies_E6 :: real where "NoteFrequencies_E6 = 1318.51"

definition VirtualKeys_Q :: WPARAM where "VirtualKeys_Q = 0x51"
definition VirtualKeys_W :: WPARAM where "VirtualKeys_W = 0x57"
definition VirtualKeys_E :: WPARAM where "VirtualKeys_E = 0x45"
definition VirtualKeys_R :: WPARAM where "VirtualKeys_R = 0x52"
definition VirtualKeys_T :: WPARAM where "VirtualKeys_T = 0x54"
definition VirtualKeys_Y :: WPARAM where "VirtualKeys_Y = 0x59"
definition VirtualKeys_U :: WPARAM where "VirtualKeys_U = 0x55"
definition VirtualKeys_I :: WPARAM where "VirtualKeys_I = 0x49"
definition VirtualKeys_O :: WPARAM where "VirtualKeys_O = 0x4F"
definition VirtualKeys_P :: WPARAM where "VirtualKeys_P = 0x50"
definition VirtualKeys_Z :: WPARAM where "VirtualKeys_Z = 0x5A"
definition VirtualKeys_X :: WPARAM where "VirtualKeys_X = 0x58"
definition VirtualKeys_C :: WPARAM where "VirtualKeys_C = 0x43"
definition VirtualKeys_V :: WPARAM where "VirtualKeys_V = 0x56"
definition VirtualKeys_B :: WPARAM where "VirtualKeys_B = 0x42"
definition VirtualKeys_N :: WPARAM where "VirtualKeys_N = 0x4E"
definition VirtualKeys_M :: WPARAM where "VirtualKeys_M = 0x4D"

text \<open>The seventeen key codes that \<^verbatim>\<open>MapNoteFrequency\<close> tests, in the order of its chain.\<close>

definition mapped_keys :: "WPARAM list" where
  "mapped_keys =
     [VirtualKeys_Q, VirtualKeys_W, VirtualKeys_E, VirtualKeys_R, VirtualKeys_T,
      VirtualKeys_Y, VirtualKeys_U, VirtualKeys_I, VirtualKeys_O, VirtualKeys_P,
      VirtualKeys_Z, VirtualKeys_X, VirtualKeys_C, VirtualKeys_V, VirtualKeys_B,
      VirtualKeys_N, VirtualKeys_M]"

subsection \<open>The AudioManager object\<close>

datatype WaveType = Sine | Square

record AudioManager =
  m_activeNotes :: "(WPARAM \<times> real) list"
  m_currentWaveType :: WaveType

text \<open>The key set of the registry, and the invariant of a map: no key twice.\<close>

definition note_ids :: "AudioManager \<Rightarrow> WPARAM set" where
  "note_ids am = fst ` set (m_activeNotes am)"

definition registry_ok :: "AudioManager \<Rightarrow> bool" where
  "registry_ok am = distinct (map fst (m_activeNotes am))"

text \<open>
  \<^verbatim>\<open>MapNoteFrequency\<close>. The \<^verbatim>\<open>if\<close>/\<^verbatim>\<open>else if\<close> chain, in source order, either assigns
  \<^verbatim>\<open>noteFreq\<close> or reaches the final \<^verbatim>\<open>else return;\<close> (\<^const>\<open>None\<close>), which leaves the
  object as it is. Past the chain, \<^verbatim>\<open>m_activeNotes[wParam] = noteFreq\<close> overwrites the
  entry of an existing key and inserts one otherwise.
\<close>

definition MapNoteFrequency_chain :: "WPARAM \<Rightarrow> real option" where
  "MapNoteFrequency_chain wParam =
     (if wParam = VirtualKeys_Q then Some NoteFrequencies_C5
      else if wParam = VirtualKeys_W then Some NoteFrequencies_D5
      else if wParam = VirtualKeys_E then Some NoteFrequencies_E5
      else if wParam = VirtualKeys_R then Some NoteFrequencies_F5
      else if wParam = VirtualKeys_T then Some NoteFrequencies_G5
      else if wParam = VirtualKeys_Y then Some NoteFrequencies_A5
      else if wParam = VirtualKeys_U then Some NoteFrequencies_B5
      else if wParam = VirtualKeys_I then Some NoteFrequencies_C6
      else if wParam = VirtualKeys_O then Some NoteFrequencies_D6
      else if wParam = VirtualKeys_P then Some NoteFrequencies_E6
      else if wParam = VirtualKeys_Z then Some NoteFrequencies_C4
      else if wParam = VirtualKeys_X then Some NoteFrequencies_D4
      else if wParam = VirtualKeys_C then Some NoteFrequencies_E4
      else if wParam = VirtualKeys_V then Some NoteFrequencies_F4
      else if wParam = VirtualKeys_B then Some NoteFrequencies_G4
      else if wParam = VirtualKeys_N then Some NoteFrequencies_A4
      else if wParam = VirtualKeys_M then Some NoteFrequencies_B4
      else None)"

definition MapNoteFrequency :: "WPARAM \<Rightarrow> AudioManager \<Rightarrow> AudioManager" where
  "MapNoteFrequency wParam am =
     (case MapNoteFrequency_chain wParam of
        None \<Rightarrow> am
      | Some noteFreq \<Rightarrow>
          am\<lparr>m_activeNotes := AList.update wParam noteFreq (m_activeNotes am)\<rparr>)"

text \<open>\<^verbatim>\<open>HandleKeyDown\<close>: only a key that \<^verbatim>\<open>find\<close> does not locate reaches the key table.\<close>

definition HandleKeyDown :: "WPARAM \<Rightarrow> AudioManager \<Rightarrow> AudioManager" where
  "HandleKeyDown wParam am =
     (if map_of (m_activeNotes am) wParam = None then MapNoteFrequency wParam am else am)"

text \<open>\<^verbatim>\<open>HandleKeyUp\<close>: \<^verbatim>\<open>erase\<close> by key; an absent key erases nothing.\<close>

definition HandleKeyUp :: "WPARAM \<Rightarrow> AudioManager \<Rightarrow> AudioManager" where
  "HandleKeyUp wParam am = am\<lparr>m_activeNotes := AList.delete wParam (m_activeNotes am)\<rparr>"

definition SetWaveType :: "WaveType \<Rightarrow> AudioManager \<Rightarrow> AudioManager" where
  "SetWaveType type am = am\<lparr>m_currentWaveType := type\<rparr>"

subsection \<open>Oscillators and the mixing callback\<close>

text \<open>
  The conversion of a \<^verbatim>\<open>double\<close> to an integer drops the fraction (rounds towards zero).
\<close>

definition trunc :: "real \<Rightarrow> int" where
  "trunc x = (if 0 \<le> x then \<lfloor>x\<rfloor> else \<lceil>x\<rceil>)"

text \<open>
  C's \<^verbatim>\<open>fmod(x, y)\<close> is \<^verbatim>\<open>x - n * y\<close> with \<^verbatim>\<open>n\<close> the quotient \<^verbatim>\<open>x / y\<close> rounded towards
  zero, so the result carries the sign of \<^verbatim>\<open>x\<close>. The program calls it with \<^verbatim>\<open>y = 1.0\<close> only.
\<close>

definition fmod :: "real \<Rightarrow> real \<Rightarrow> real" where
  "fmod x y = x - of_int (trunc (x / y)) * y"

definition SineSoundMaker :: "real \<Rightarrow> real \<Rightarrow> real" where
  "SineSoundMaker freq dTime = sin (freq * TWO_PI * dTime)"

definition SquareSoundMaker :: "real \<Rightarrow> real \<Rightarrow> real" where
  "SquareSoundMaker freq dTime =
     (let phase = fmod (freq * dTime) 1.0 in if phase < 0.5 then 1.0 else -1.0)"

text \<open>
  Both mixing functions: \<^verbatim>\<open>dOutput\<close> starts at \<^verbatim>\<open>0.0\<close> and one oscillator value is added
  per registry entry, in iteration order; the result is \<^verbatim>\<open>dOutput * 0.5\<close>.
\<close>

fun mix_loop :: "(real \<Rightarrow> real \<Rightarrow> real) \<Rightarrow> real \<Rightarrow> (WPARAM \<times> real) list \<Rightarrow> real \<Rightarrow> real" where
  "mix_loop osc dTime [] dOutput = dOutput"
| "mix_loop osc dTime (key # rest) dOutput =
     (let freq = snd key in mix_loop osc dTime rest (dOutput + osc freq dTime))"

definition MakeSineNoise :: "AudioManager \<Rightarrow> real \<Rightarrow> real" where
  "MakeSineNoise am dTime = mix_loop SineSoundMaker dTime (m_activeNotes am) 0.0 * 0.5"

definition MakeSquareNoise :: "AudioManager \<Rightarrow> real \<Rightarrow> real" where
  "MakeSquareNoise am dTime = mix_loop SquareSoundMaker dTime (m_activeNotes am) 0.0 * 0.5"

text \<open>
  \<^verbatim>\<open>StaticNoiseCallback\<close> reads the static \<^verbatim>\<open>s_instance\<close> pointer, here an option: a null
  pointer yields \<^verbatim>\<open>0.0\<close>.
\<close>

definition StaticNoiseCallback :: "AudioManager option \<Rightarrow> real \<Rightarrow> real" where
  "StaticNoiseCallback s_instance dTime =
     (case s_instance of
        None \<Rightarrow> 0.0
      | Some inst \<Rightarrow>
          (case m_currentWaveType inst of
             Sine \<Rightarrow> MakeSineNoise inst dTime
           | Square \<Rightarrow> MakeSquareNoise inst dTime))"

subsection \<open>NoiseMaker: sample conversion\<close>

text \<open>
  \<^verbatim>\<open>clip\<close>: \<^verbatim>\<open>fmin\<close> and \<^verbatim>\<open>fmax\<close> of two reals are \<^const>\<open>min\<close> and \<^const>\<open>max\<close>.
\<close>

definition clip :: "real \<Rightarrow> real \<Rightarrow> real" where
  "clip dSample dMax = (if dSample \<ge> 0.0 then min dSample dMax else max dSample (- dMax))"

text \<open>
  The cast \<^verbatim>\<open>(T)x\<close> of a \<^verbatim>\<open>double\<close> to \<^verbatim>\<open>T = int\<close> drops the fraction. A value outside
  the range of \<^verbatim>\<open>int\<close> is reduced modulo \<open>2 ^ 32\<close> here; the only such cast of the program
  is \<^verbatim>\<open>(T)pow(2, 31)\<close>, which an x86 conversion instruction turns into \<^verbatim>\<open>0x80000000\<close>,
  the same bit pattern.
\<close>

definition double_to_T :: "real \<Rightarrow> s32" where
  "double_to_T x = word_of_int (trunc x)"

text \<open>
  \<^verbatim>\<open>T nMaxSample = (T)pow(2, (sizeof(T) * 8) - 1) - 1\<close> with \<^verbatim>\<open>sizeof(T) = 4\<close>; the
  subtraction wraps. \<^verbatim>\<open>dMaxSample\<close> is that integer as a \<^verbatim>\<open>double\<close>.
\<close>

definition nMaxSample :: s32 where
  "nMaxSample = double_to_T (2 ^ (4 * 8 - 1)) - 1"

definition dMaxSample :: real where
  "dMaxSample = real_of_int (sint nMaxSample)"

definition UserProcess :: "real \<Rightarrow> real" where
  "UserProcess dTime = 0.0"

subsection \<open>NoiseMaker: the object\<close>

text \<open>
  The data members that the generation loop reads or writes. \<^verbatim>\<open>m_pBlockMemory\<close> is the
  allocated array (\<^verbatim>\<open>nullptr\<close> is the empty list). The wave headers, the device handle,
  the thread handle, the mutex and the condition variable belong to the operating
  system's side and appear in the engine model further down.
\<close>

record NoiseMaker =
  m_userFunction :: "(real \<Rightarrow> real) option"
  m_nSampleRate :: u32
  m_nChannels :: u32
  m_nBlockCount :: u32
  m_nBlockSamples :: u32
  m_nBlockCurrent :: u32
  m_pBlockMemory :: "s32 list"
  m_bReady :: bool
  m_nBlockFree :: u32
  m_dGlobalTime :: real

text \<open>
  What \<^verbatim>\<open>Create\<close> finds when it looks for the output device: the name is not in the
  device list (the \<^verbatim>\<open>if (d != devices.end())\<close> block is skipped), or it is and
  \<^verbatim>\<open>waveOutOpen\<close> fails, or it is and the device opens.
\<close>

datatype waveOut = NotListed | OpenFailed | Opened

text \<open>
  \<^verbatim>\<open>Create\<close> assigns the members of the object it is called on; \<^verbatim>\<open>m_dGlobalTime\<close> is
  not among them. On \<^verbatim>\<open>OpenFailed\<close> it returns \<^verbatim>\<open>Destroy()\<close>, which finds \<^verbatim>\<open>m_bReady\<close>
  false and returns \<^verbatim>\<open>false\<close>. Otherwise it allocates and zeroes
  \<^verbatim>\<open>m_nBlockCount * m_nBlockSamples\<close> samples (an \<^verbatim>\<open>unsigned int\<close> product), sets
  \<^verbatim>\<open>m_bReady\<close>, starts the thread and returns \<^verbatim>\<open>true\<close>. Plain \<^verbatim>\<open>new\<close> does not return
  \<^verbatim>\<open>nullptr\<close>, so the two allocation checks never fire.
\<close>

definition Create ::
  "waveOut \<Rightarrow> u32 \<Rightarrow> u32 \<Rightarrow> u32 \<Rightarrow> u32 \<Rightarrow> NoiseMaker \<Rightarrow> bool \<times> NoiseMaker" where
  "Create dev nSampleRate nChannels nBlocks nBlockSamples nm =
     (let nm1 = nm\<lparr>m_bReady := False, m_nSampleRate := nSampleRate, m_nChannels := nChannels,
                    m_nBlockCount := nBlocks, m_nBlockSamples := nBlockSamples,
                    m_nBlockFree := nBlocks, m_nBlockCurrent := 0, m_pBlockMemory := [],
                    m_userFunction := None\<rparr>
      in if dev = OpenFailed then (False, nm1)
         else (True, nm1\<lparr>m_pBlockMemory := replicate (unat (nBlocks * nBlockSamples)) 0,
                          m_bReady := True\<rparr>))"

definition SetUserFunction :: "(real \<Rightarrow> real) \<Rightarrow> NoiseMaker \<Rightarrow> NoiseMaker" where
  "SetUserFunction func nm = nm\<lparr>m_userFunction := Some func\<rparr>"

text \<open>
  \<^verbatim>\<open>waveOutProc\<close>, the completion callback, up to its notification. \<^verbatim>\<open>WOM_DONE\<close> is the
  message number of \<^verbatim>\<open>mmsystem.h\<close>.
\<close>

definition WOM_DONE :: u32 where
  "WOM_DONE = 0x3BD"

definition waveOutProc :: "u32 \<Rightarrow> NoiseMaker \<Rightarrow> NoiseMaker" where
  "waveOutProc uMsg nm =
     (if uMsg \<noteq> WOM_DONE then nm else nm\<lparr>m_nBlockFree := m_nBlockFree nm + 1\<rparr>)"

subsection \<open>NoiseMaker: the generation loop\<close>

text \<open>
  The sample expression of the inner loop, with the test of \<^verbatim>\<open>m_userFunction\<close> against
  \<^verbatim>\<open>nullptr\<close>. The product is a \<^verbatim>\<open>double\<close> product, rounded by \<open>fl\<close> before the cast.
\<close>

definition MainThread_new_sample :: "(real \<Rightarrow> real) \<Rightarrow> real \<Rightarrow> NoiseMaker \<Rightarrow> s32" where
  "MainThread_new_sample fl dMax nm =
     (case m_userFunction nm of
        None \<Rightarrow> double_to_T (fl (clip (UserProcess (m_dGlobalTime nm)) 1.0 * dMax))
      | Some func \<Rightarrow> double_to_T (fl (clip (func (m_dGlobalTime nm)) 1.0 * dMax)))"

text \<open>
  The body of \<^verbatim>\<open>for (unsigned int n = 0; n < m_nBlockSamples; n++)\<close>: compute the sample,
  store it at \<^verbatim>\<open>m_pBlockMemory[nCurrentBlock + n]\<close>, advance the clock by
  \<^verbatim>\<open>m_dGlobalTime = m_dGlobalTime + dTimeStep\<close>, a \<^verbatim>\<open>double\<close> sum rounded by \<open>fl\<close>. The
  index is an \<^verbatim>\<open>unsigned int\<close> sum; a store outside the allocation is \<^const>\<open>None\<close>.
\<close>

definition MainThread_for_body ::
  "(real \<Rightarrow> real) \<Rightarrow> real \<Rightarrow> real \<Rightarrow> u32 \<Rightarrow> u32 \<Rightarrow> NoiseMaker \<Rightarrow> NoiseMaker option" where
  "MainThread_for_body fl dTimeStep dMax nCurrentBlock n nm =
     (let nNewSample = MainThread_new_sample fl dMax nm;
          i = unat (nCurrentBlock + n)
      in if i < length (m_pBlockMemory nm)
         then Some (nm\<lparr>m_pBlockMemory := (m_pBlockMemory nm)[i := nNewSample],
                       m_dGlobalTime := fl (m_dGlobalTime nm + dTimeStep)\<rparr>)
         else None)"

function MainThread_for ::
  "(real \<Rightarrow> real) \<Rightarrow> real \<Rightarrow> real \<Rightarrow> u32 \<Rightarrow> u32 \<Rightarrow> NoiseMaker \<Rightarrow> NoiseMaker option" where
  "MainThread_for fl dTimeStep dMax nCurrentBlock n nm =
     (if n < m_nBlockSamples nm then
        (case MainThread_for_body fl dTimeStep dMax nCurrentBlock n nm of
           None \<Rightarrow> None
         | Some nm' \<Rightarrow> MainThread_for fl dTimeStep dMax nCurrentBlock (n + 1) nm')
      else Some nm)"
  by pat_completeness auto
termination
proof (relation "measure (\<lambda>(fl, dTimeStep, dMax, nCurrentBlock, n, nm). unat (m_nBlockSamples nm) - unat n)")
  show "wf (measure (\<lambda>(fl, dTimeStep, dMax, nCurrentBlock, n, nm). unat (m_nBlockSamples nm) - unat n))"
    by simp
next
  fix fl :: "real \<Rightarrow> real" and dTimeStep dMax :: real and nCurrentBlock n :: u32
    and nm x2 :: NoiseMaker
  assume lt: "n < m_nBlockSamples nm"
    and body: "MainThread_for_body fl dTimeStep dMax nCurrentBlock n nm = Some x2"
  have same: "m_nBlockSamples x2 = m_nBlockSamples nm"
    using body by (auto simp: MainThread_for_body_def Let_def split: if_splits)
  have below: "unat n < unat (m_nBlockSamples nm)"
    using lt by (simp add: word_less_nat_alt)
  have "unat (m_nBlockSamples nm) < 2 ^ 32"
    using unsigned_less [of "m_nBlockSamples nm"] by simp
  with below have "unat n + unat (1::u32) < 2 ^ LENGTH(32)" by simp
  then have "unat (n + 1) = unat n + unat (1::u32)" by (simp only: unat_add_lem)
  then have "unat (n + 1) = unat n + 1" by simp
  with same below
  show "((fl, dTimeStep, dMax, nCurrentBlock, n + 1, x2), (fl, dTimeStep, dMax, nCurrentBlock, n, nm))
      \<in> measure (\<lambda>(fl, dTimeStep, dMax, nCurrentBlock, n, nm). unat (m_nBlockSamples nm) - unat n)"
    by simp
qed

declare MainThread_for.simps [simp del]

text \<open>
  One pass through the body of \<^verbatim>\<open>while (m_bReady)\<close> from \<^verbatim>\<open>m_nBlockFree--\<close> on: the
  decrement, the read of \<^verbatim>\<open>m_pWaveHeaders[m_nBlockCurrent]\<close> (an array of
  \<^verbatim>\<open>m_nBlockCount\<close> headers; an index outside it is \<^const>\<open>None\<close>), the inner loop over the
  block at \<^verbatim>\<open>m_nBlockCurrent * m_nBlockSamples\<close>, \<^verbatim>\<open>waveOutWrite\<close> of the current header
  (its index is returned with the object), and the rotation
  \<^verbatim>\<open>m_nBlockCurrent++; m_nBlockCurrent %= m_nBlockCount\<close>.
\<close>

definition MainThread_block ::
  "(real \<Rightarrow> real) \<Rightarrow> real \<Rightarrow> real \<Rightarrow> NoiseMaker \<Rightarrow> (u32 \<times> NoiseMaker) option" where
  "MainThread_block fl dTimeStep dMax nm =
     (let nm1 = nm\<lparr>m_nBlockFree := m_nBlockFree nm - 1\<rparr> in
      if m_nBlockCurrent nm1 < m_nBlockCount nm1 then
        (let nCurrentBlock = m_nBlockCurrent nm1 * m_nBlockSamples nm1 in
         case MainThread_for fl dTimeStep dMax nCurrentBlock 0 nm1 of
           None \<Rightarrow> None
         | Some nm2 \<Rightarrow>
             Some (m_nBlockCurrent nm2,
                   nm2\<lparr>m_nBlockCurrent := (m_nBlockCurrent nm2 + 1) mod m_nBlockCount nm2\<rparr>))
      else None)"

text \<open>
  \<open>k\<close> consecutive passes, collecting the header indices given to \<^verbatim>\<open>waveOutWrite\<close> in
  call order.
\<close>

fun MainThread_blocks ::
  "(real \<Rightarrow> real) \<Rightarrow> nat \<Rightarrow> real \<Rightarrow> real \<Rightarrow> NoiseMaker \<Rightarrow> (u32 list \<times> NoiseMaker) option" where
  "MainThread_blocks fl 0 dTimeStep dMax nm = Some ([], nm)"
| "MainThread_blocks fl (Suc k) dTimeStep dMax nm =
     (case MainThread_block fl dTimeStep dMax nm of
        None \<Rightarrow> None
      | Some (i, nm') \<Rightarrow>
          (case MainThread_blocks fl k dTimeStep dMax nm' of
             None \<Rightarrow> None
           | Some (written, nm'') \<Rightarrow> Some (i # written, nm'')))"

text \<open>
  \<^verbatim>\<open>MainThread\<close> from its first statement through \<open>M\<close> blocks: the clock is set to
  \<^verbatim>\<open>0.0\<close>, \<^verbatim>\<open>dTimeStep = 1.0 / (double)m_nSampleRate\<close> (a \<^verbatim>\<open>double\<close> quotient, rounded by
  \<open>fl\<close>), \<^verbatim>\<open>dMaxSample\<close> as above. A sample rate of zero makes the step infinite, which
  no real number models: \<^const>\<open>None\<close>.
\<close>

definition MainThread_generate ::
  "(real \<Rightarrow> real) \<Rightarrow> nat \<Rightarrow> NoiseMaker \<Rightarrow> (u32 list \<times> NoiseMaker) option" where
  "MainThread_generate fl M nm =
     (if m_nSampleRate nm = 0 then None
      else
        (let nm0 = nm\<lparr>m_dGlobalTime := 0.0\<rparr>;
             dTimeStep = fl (1.0 / real (unat (m_nSampleRate nm0)))
         in MainThread_blocks fl M dTimeStep dMaxSample nm0))"

text \<open>
  The states in which a pass cannot leave the allocation: the current index is inside the
  ring, the pool size in samples fits an \<^verbatim>\<open>unsigned int\<close>, and the memory has that size.
\<close>

definition engine_ok :: "NoiseMaker \<Rightarrow> bool" where
  "engine_ok nm \<longleftrightarrow>
     m_nBlockCurrent nm < m_nBlockCount nm \<and>
     unat (m_nBlockCount nm) * unat (m_nBlockSamples nm) < 2 ^ 32 \<and>
     length (m_pBlockMemory nm) = unat (m_nBlockCount nm) * unat (m_nBlockSamples nm)"

text \<open>
  The clock alone: \<^verbatim>\<open>m_dGlobalTime = m_dGlobalTime + dTimeStep\<close> executed \<open>n\<close> times from
  \<^verbatim>\<open>0.0\<close>, with \<open>fl\<close> the rounding applied to the sum; and the same from any value \<open>t\<close>
  of the clock.
\<close>

fun clock_after :: "(real \<Rightarrow> real) \<Rightarrow> real \<Rightarrow> nat \<Rightarrow> real" where
  "clock_after fl dTimeStep 0 = 0.0"
| "clock_after fl dTimeStep (Suc n) = fl (clock_after fl dTimeStep n + dTimeStep)"

fun clock_from :: "(real \<Rightarrow> real) \<Rightarrow> real \<Rightarrow> real \<Rightarrow> nat \<Rightarrow> real" where
  "clock_from fl dTimeStep t 0 = t"
| "clock_from fl dTimeStep t (Suc n) = fl (clock_from fl dTimeStep t n + dTimeStep)"

subsection \<open>The engine: generation thread, completion callback and Stop\<close>

text \<open>
  The generation thread, the device's completion callback and the caller of \<^verbatim>\<open>Stop\<close> run
  concurrently. They are interleaved here at the grain of the statements that touch
  shared state. The thread is at one of these places of \<^verbatim>\<open>MainThread\<close>:
  \<^item> \<open>AtStart\<close>: before its first statement;
  \<^item> \<open>AtWhile\<close>: before the test of \<^verbatim>\<open>while (m_bReady)\<close>;
  \<^item> \<open>AtIf\<close>: before the test of \<^verbatim>\<open>if (m_nBlockFree == 0)\<close>;
  \<^item> \<open>AtWait\<close>: the test found zero, the mutex is not yet locked;
  \<^item> \<open>Waiting\<close>: blocked in \<^verbatim>\<open>m_cvBlockNotZero.wait(lm)\<close>;
  \<^item> \<open>AtDecrement\<close>: before \<^verbatim>\<open>m_nBlockFree--\<close>, past the \<^verbatim>\<open>if\<close>;
  \<^item> \<open>Exited\<close>: the loop test failed and \<^verbatim>\<open>MainThread\<close> returned;
  \<^item> \<open>Faulted\<close>: the thread left the model (an access outside an array, or the infinite
    time step of a zero sample rate).
\<close>

datatype thread_pc = AtStart | AtWhile | AtIf | AtWait | Waiting | AtDecrement | Exited | Faulted

text \<open>
  The state of the whole: the object, the place of the thread, the headers given to
  \<^verbatim>\<open>waveOutWrite\<close> and not yet reported done (oldest first), and what \<^verbatim>\<open>Create\<close> found
  of the device.
\<close>

record engine =
  obj :: NoiseMaker
  pc :: thread_pc
  queue :: "u32 list"
  device :: waveOut

text \<open>
  The next action of the generation thread; \<^const>\<open>None\<close> when it has none (blocked or
  gone). The thread cannot leave \<^verbatim>\<open>wait\<close> by a step of its own: the wait returns through
  the events \<open>Done\<close> and \<open>Wake\<close> below. It stands under \<^verbatim>\<open>if\<close>, not under a loop, so
  whatever ends it the thread goes on to \<^verbatim>\<open>m_nBlockFree--\<close> without a second look at the
  counter.
  From \<open>AtDecrement\<close> the rest of the loop body runs as one action. The program ignores
  what \<^verbatim>\<open>waveOutWrite\<close> returns; \<open>accepted\<close> says whether the device takes the header.
  The header is queued if there is an open device and it does; with a device name that is
  not listed \<^verbatim>\<open>m_hwDevice\<close> was never opened and nothing is ever queued.
\<close>

definition thread_step :: "(real \<Rightarrow> real) \<Rightarrow> bool \<Rightarrow> engine \<Rightarrow> engine option" where
  "thread_step fl accepted e =
     (case pc e of
        AtStart \<Rightarrow>
          if m_nSampleRate (obj e) = 0 then Some (e\<lparr>pc := Faulted\<rparr>)
          else Some (e\<lparr>obj := (obj e)\<lparr>m_dGlobalTime := 0.0\<rparr>, pc := AtWhile\<rparr>)
      | AtWhile \<Rightarrow> Some (e\<lparr>pc := (if m_bReady (obj e) then AtIf else Exited)\<rparr>)
      | AtIf \<Rightarrow> Some (e\<lparr>pc := (if m_nBlockFree (obj e) = 0 then AtWait else AtDecrement)\<rparr>)
      | AtWait \<Rightarrow> Some (e\<lparr>pc := Waiting\<rparr>)
      | Waiting \<Rightarrow> None
      | AtDecrement \<Rightarrow>
          (case MainThread_block fl (fl (1.0 / real (unat (m_nSampleRate (obj e))))) dMaxSample
                  (obj e) of
             None \<Rightarrow> Some (e\<lparr>pc := Faulted\<rparr>)
           | Some (i, nm') \<Rightarrow>
               Some (e\<lparr>obj := nm',
                       queue := (if device e = Opened \<and> accepted then queue e @ [i] else queue e),
                       pc := AtWhile\<rparr>))
      | Exited \<Rightarrow> None
      | Faulted \<Rightarrow> None)"

text \<open>
  The device finishes the oldest queued header and calls \<^verbatim>\<open>waveOutProc\<close> with
  \<^verbatim>\<open>WOM_DONE\<close>: the free count goes up and \<^verbatim>\<open>notify_one\<close> wakes the thread if it is
  waiting. A notification that finds no waiter is lost.
\<close>

definition sink_done :: "engine \<Rightarrow> engine option" where
  "sink_done e =
     (case queue e of
        [] \<Rightarrow> None
      | i # rest \<Rightarrow>
          Some (e\<lparr>obj := waveOutProc WOM_DONE (obj e), queue := rest,
                  pc := (if pc e = Waiting then AtDecrement else pc e)\<rparr>))"

text \<open>
  A return of \<^verbatim>\<open>wait\<close> that no completion caused: the \<^verbatim>\<open>notify_one\<close> with which \<^verbatim>\<open>Create\<close>
  ends (it runs after the thread was started, at any later moment), or a spurious
  wake-up, which \<^verbatim>\<open>std::condition_variable::wait\<close> without a predicate allows. It moves a
  waiting thread on and touches nothing else; with no thread waiting it is lost.
\<close>

definition wake_up :: "engine \<Rightarrow> engine" where
  "wake_up e = e\<lparr>pc := (if pc e = Waiting then AtDecrement else pc e)\<rparr>"

text \<open>
  \<^verbatim>\<open>Stop\<close> is \<^verbatim>\<open>m_bReady = false; m_thread.join();\<close>. Its first statement is a step;
  the second returns once the thread has exited and changes nothing.
\<close>

definition Stop_flag :: "engine \<Rightarrow> engine" where
  "Stop_flag e = e\<lparr>obj := (obj e)\<lparr>m_bReady := False\<rparr>\<rparr>"

definition Stop_returns :: "engine \<Rightarrow> bool" where
  "Stop_returns e \<longleftrightarrow> pc e = Exited"

text \<open>
  The events of the whole: a step of the thread (with the device's answer to a
  \<^verbatim>\<open>waveOutWrite\<close> in it), a completion reported by the device, a wake-up that is not a
  completion, the first statement of \<^verbatim>\<open>Stop\<close>, and a call of \<^verbatim>\<open>SetUserFunction\<close> by the
  owner. A run is a list of events; it is \<^const>\<open>None\<close> if one of them cannot happen in the
  state it meets.
\<close>

datatype event = ThreadStep bool | Done | Wake | StopFlag | SetUser "real \<Rightarrow> real"

definition engine_step :: "(real \<Rightarrow> real) \<Rightarrow> event \<Rightarrow> engine \<Rightarrow> engine option" where
  "engine_step fl ev e =
     (case ev of
        ThreadStep accepted \<Rightarrow> thread_step fl accepted e
      | Done \<Rightarrow> sink_done e
      | Wake \<Rightarrow> Some (wake_up e)
      | StopFlag \<Rightarrow> Some (Stop_flag e)
      | SetUser func \<Rightarrow> Some (e\<lparr>obj := SetUserFunction func (obj e)\<rparr>))"

fun engine_run :: "(real \<Rightarrow> real) \<Rightarrow> event list \<Rightarrow> engine \<Rightarrow> engine option" where
  "engine_run fl [] e = Some e"
| "engine_run fl (ev # evs) e =
     (case engine_step fl ev e of None \<Rightarrow> None | Some e' \<Rightarrow> engine_run fl evs e')"

text \<open>
  The number of completions, of steps of the thread and of other wake-ups in a run.
\<close>

definition completions :: "event list \<Rightarrow> nat" where
  "completions evs = length (filter (\<lambda>ev. case ev of Done \<Rightarrow> True | _ \<Rightarrow> False) evs)"

definition thread_steps :: "event list \<Rightarrow> nat" where
  "thread_steps evs = length (filter (\<lambda>ev. case ev of ThreadStep accepted \<Rightarrow> True | _ \<Rightarrow> False) evs)"

definition wake_ups :: "event list \<Rightarrow> nat" where
  "wake_ups evs = length (filter (\<lambda>ev. case ev of Wake \<Rightarrow> True | _ \<Rightarrow> False) evs)"

text \<open>
  Two events take the engine out of its intended course: a wake-up that is not a
  completion reaching the thread while it waits with a free count of zero, and a
  \<^verbatim>\<open>waveOutWrite\<close> that the device refuses. A run is undisturbed if neither happens in
  it.
\<close>

definition stray :: "event \<Rightarrow> engine \<Rightarrow> bool" where
  "stray ev e =
     (case ev of
        Wake \<Rightarrow> pc e = Waiting \<and> m_nBlockFree (obj e) = 0
      | ThreadStep accepted \<Rightarrow> pc e = AtDecrement \<and> \<not> accepted
      | _ \<Rightarrow> False)"

fun undisturbed :: "(real \<Rightarrow> real) \<Rightarrow> event list \<Rightarrow> engine \<Rightarrow> bool" where
  "undisturbed fl [] e = True"
| "undisturbed fl (ev # evs) e =
     (\<not> stray ev e \<and>
      (case engine_step fl ev e of None \<Rightarrow> True | Some e' \<Rightarrow> undisturbed fl evs e'))"

text \<open>
  The state in which \<^verbatim>\<open>Create\<close> leaves the engine when it returns \<^verbatim>\<open>true\<close>: the thread
  is started and has not run yet, nothing is queued. The \<^verbatim>\<open>notify_one\<close> with which
  \<^verbatim>\<open>Create\<close> ends is not part of this state: it is an event \<open>Wake\<close> of the run that
  follows.
\<close>

definition engine_start ::
  "waveOut \<Rightarrow> u32 \<Rightarrow> u32 \<Rightarrow> u32 \<Rightarrow> u32 \<Rightarrow> NoiseMaker \<Rightarrow> engine option" where
  "engine_start dev nSampleRate nChannels nBlocks nBlockSamples nm =
     (case Create dev nSampleRate nChannels nBlocks nBlockSamples nm of
        (ready, nm') \<Rightarrow>
          if ready then Some \<lparr>obj = nm', pc = AtStart, queue = [], device = dev\<rparr> else None)"

text \<open>
  The accounting of the pool: every block is counted free or is queued at the device, the
  queued headers are the most recently written ones in ring order, and the thread is
  past the \<^verbatim>\<open>if\<close> only with a free block. With a block count of zero there is nothing to
  account for: the engine is idle, the thread never gets past the \<^verbatim>\<open>if\<close>.
\<close>

definition pool_inv :: "engine \<Rightarrow> bool" where
  "pool_inv e \<longleftrightarrow>
     engine_ok (obj e) \<and>
     unat (m_nBlockFree (obj e)) + length (queue e) = unat (m_nBlockCount (obj e)) \<and>
     (\<forall>j < length (queue e).
        unat (queue e ! j) =
          (unat (m_nBlockCurrent (obj e)) + unat (m_nBlockCount (obj e)) - length (queue e) + j)
            mod unat (m_nBlockCount (obj e))) \<and>
     (pc e = AtDecrement \<longrightarrow> m_nBlockFree (obj e) \<noteq> 0)"


subsection \<open>The registry mutex\<close>

text \<open>
  What each operation of \<^verbatim>\<open>AudioManager\<close> does to \<^verbatim>\<open>m_notesMutex\<close> and to the shared
  members, in program order. A \<^verbatim>\<open>std::lock_guard\<close> locks where it is declared and
  unlocks when the function returns.
\<close>

datatype action =
    Lock | Unlock
  | ReadWaveType
  | ReadNote WPARAM real
  | Find WPARAM
  | Store WPARAM real
  | Erase WPARAM
  | WriteWaveType WaveType

text \<open>
  \<^verbatim>\<open>MakeSineNoise\<close> and \<^verbatim>\<open>MakeSquareNoise\<close>: the guard is the first statement, the loop
  reads every entry of \<^verbatim>\<open>m_activeNotes\<close> itself, the guard ends with the \<^verbatim>\<open>return\<close>.
\<close>

definition MakeSineNoise_actions :: "AudioManager \<Rightarrow> action list" where
  "MakeSineNoise_actions am =
     [Lock] @ map (\<lambda>key. ReadNote (fst key) (snd key)) (m_activeNotes am) @ [Unlock]"

definition MakeSquareNoise_actions :: "AudioManager \<Rightarrow> action list" where
  "MakeSquareNoise_actions am =
     [Lock] @ map (\<lambda>key. ReadNote (fst key) (snd key)) (m_activeNotes am) @ [Unlock]"

text \<open>\<^verbatim>\<open>StaticNoiseCallback\<close> reads \<^verbatim>\<open>m_currentWaveType\<close> before either guard exists.\<close>

definition StaticNoiseCallback_actions :: "AudioManager option \<Rightarrow> action list" where
  "StaticNoiseCallback_actions s_instance =
     (case s_instance of
        None \<Rightarrow> []
      | Some inst \<Rightarrow>
          ReadWaveType #
          (case m_currentWaveType inst of
             Sine \<Rightarrow> MakeSineNoise_actions inst
           | Square \<Rightarrow> MakeSquareNoise_actions inst))"

definition HandleKeyDown_actions :: "WPARAM \<Rightarrow> AudioManager \<Rightarrow> action list" where
  "HandleKeyDown_actions wParam am =
     [Lock, Find wParam] @
     (if map_of (m_activeNotes am) wParam = None
      then (case MapNoteFrequency_chain wParam of
              None \<Rightarrow> []
            | Some noteFreq \<Rightarrow> [Store wParam noteFreq])
      else []) @
     [Unlock]"

definition HandleKeyUp_actions :: "WPARAM \<Rightarrow> AudioManager \<Rightarrow> action list" where
  "HandleKeyUp_actions wParam am = [Lock, Erase wParam, Unlock]"

definition SetWaveType_actions :: "WaveType \<Rightarrow> AudioManager \<Rightarrow> action list" where
  "SetWaveType_actions type am = [Lock, WriteWaveType type, Unlock]"

text \<open>The effect of the writing actions on the object, and the frequencies a sequence reads.\<close>

fun apply_action :: "action \<Rightarrow> AudioManager \<Rightarrow> AudioManager" where
  "apply_action (Store k f) am = am\<lparr>m_activeNotes := AList.update k f (m_activeNotes am)\<rparr>"
| "apply_action (Erase k) am = am\<lparr>m_activeNotes := AList.delete k (m_activeNotes am)\<rparr>"
| "apply_action (WriteWaveType w) am = am\<lparr>m_currentWaveType := w\<rparr>"
| "apply_action a am = am"

fun apply_actions :: "action list \<Rightarrow> AudioManager \<Rightarrow> AudioManager" where
  "apply_actions [] am = am"
| "apply_actions (a # as) am = apply_actions as (apply_action a am)"

fun read_frequencies :: "action list \<Rightarrow> real list" where
  "read_frequencies [] = []"
| "read_frequencies (ReadNote k f # as) = f # read_frequencies as"
| "read_frequencies (a # as) = read_frequencies as"



subsection \<open>Example objects\<close>

text \<open>
  One held key (sine), the C4 major triad (square), an engine of two blocks of two samples
  at four samples per second that calls the mixing callback of the triad, and the storage
  a constructor starts from.
\<close>

definition am_example :: AudioManager where
  "am_example = \<lparr>m_activeNotes = [(VirtualKeys_Z, NoteFrequencies_C4)], m_currentWaveType = Sine\<rparr>"

definition am_chord :: AudioManager where
  "am_chord = \<lparr>m_activeNotes = [(VirtualKeys_Z, NoteFrequencies_C4), (VirtualKeys_C, NoteFrequencies_E4),
       (VirtualKeys_B, NoteFrequencies_G4)], m_currentWaveType = Square\<rparr>"

definition nm_raw :: NoiseMaker where
  "nm_raw = \<lparr>m_userFunction = None, m_nSampleRate = 0, m_nChannels = 0, m_nBlockCount = 0,
     m_nBlockSamples = 0, m_nBlockCurrent = 0, m_pBlockMemory = [], m_bReady = False,
     m_nBlockFree = 0, m_dGlobalTime = 0\<rparr>"

definition nm_example :: NoiseMaker where
  "nm_example =
     SetUserFunction (StaticNoiseCallback (Some am_chord)) (snd (Create Opened 4 1 2 2 nm_raw))"

text \<open>
  The same engine without a callback, as \<^verbatim>\<open>Create\<close> leaves it; the events that take the
  thread through both blocks and into the wait; the state it is then in; the state in
  which it has exited after a \<^verbatim>\<open>Stop\<close>, one completion and one more block, and the one
  after a \<^verbatim>\<open>Stop\<close>, two completions and one more block; the state after a wake-up without
  a completion and one more pass; and the state after a first pass whose \<^verbatim>\<open>waveOutWrite\<close>
  the device refused. The last two are the engine with a device name that is not listed.
\<close>

definition e_start :: engine where
  "e_start = \<lparr>obj = snd (Create Opened 4 1 2 2 nm_raw), pc = AtStart, queue = [], device = Opened\<rparr>"

definition fill_pool :: "event list" where
  "fill_pool = [ThreadStep True, ThreadStep True, ThreadStep True, ThreadStep True, ThreadStep True,
                ThreadStep True, ThreadStep True, ThreadStep True, ThreadStep True, ThreadStep True]"

definition e_blocked :: engine where
  "e_blocked =
     \<lparr>obj = \<lparr>m_userFunction = None, m_nSampleRate = 4, m_nChannels = 1, m_nBlockCount = 2,
              m_nBlockSamples = 2, m_nBlockCurrent = 0, m_pBlockMemory = replicate 4 0,
              m_bReady = True, m_nBlockFree = 0, m_dGlobalTime = 1\<rparr>,
      pc = Waiting, queue = [0, 1], device = Opened\<rparr>"

definition e_exited :: engine where
  "e_exited =
     \<lparr>obj = \<lparr>m_userFunction = None, m_nSampleRate = 4, m_nChannels = 1, m_nBlockCount = 2,
              m_nBlockSamples = 2, m_nBlockCurrent = 1, m_pBlockMemory = replicate 4 0,
              m_bReady = False, m_nBlockFree = 0, m_dGlobalTime = 3 / 2\<rparr>,
      pc = Exited, queue = [1, 0], device = Opened\<rparr>"

definition e_drained :: engine where
  "e_drained =
     \<lparr>obj = \<lparr>m_userFunction = None, m_nSampleRate = 4, m_nChannels = 1, m_nBlockCount = 2,
              m_nBlockSamples = 2, m_nBlockCurrent = 1, m_pBlockMemory = replicate 4 0,
              m_bReady = False, m_nBlockFree = 1, m_dGlobalTime = 3 / 2\<rparr>,
      pc = Exited, queue = [0], device = Opened\<rparr>"




definition e_unlisted_blocked :: engine where
  "e_unlisted_blocked =
     \<lparr>obj = \<lparr>m_userFunction = None, m_nSampleRate = 4, m_nChannels = 1, m_nBlockCount = 2,
              m_nBlockSamples = 2, m_nBlockCurrent = 0, m_pBlockMemory = replicate 4 0,
              m_bReady = True, m_nBlockFree = 0, m_dGlobalTime = 1\<rparr>,
      pc = Waiting, queue = [], device = NotListed\<rparr>"

section \<open>Properties of the note registry\<close>


lemmas VirtualKeys_defs =
  VirtualKeys_Q_def VirtualKeys_W_def VirtualKeys_E_def VirtualKeys_R_def
  VirtualKeys_T_def VirtualKeys_Y_def VirtualKeys_U_def VirtualKeys_I_def
  VirtualKeys_O_def VirtualKeys_P_def VirtualKeys_Z_def VirtualKeys_X_def
  VirtualKeys_C_def VirtualKeys_V_def VirtualKeys_B_def VirtualKeys_N_def
  VirtualKeys_M_def

lemma MapNoteFrequency_chain_None:
  "wParam \<notin> set mapped_keys \<Longrightarrow> MapNoteFrequency_chain wParam = None"
  by (simp add: MapNoteFrequency_chain_def mapped_keys_def)

lemma MapNoteFrequency_chain_None_D:
  "MapNoteFrequency_chain wParam = None \<Longrightarrow> wParam \<notin> set mapped_keys"
  by (simp add: MapNoteFrequency_chain_def mapped_keys_def split: if_splits)

lemma MapNoteFrequency_chain_Some:
  "wParam \<in> set mapped_keys \<Longrightarrow> \<exists>noteFreq. MapNoteFrequency_chain wParam = Some noteFreq"
  using MapNoteFrequency_chain_None_D [of wParam] by (cases "MapNoteFrequency_chain wParam") auto

text \<open>Every operation keeps the registry a map: a note-id appears at most once.\<close>

lemma MapNoteFrequency_registry_ok:
  "registry_ok am \<Longrightarrow> registry_ok (MapNoteFrequency wParam am)"
  by (simp add: MapNoteFrequency_def registry_ok_def distinct_update split: option.split)

lemma HandleKeyDown_registry_ok:
  "registry_ok am \<Longrightarrow> registry_ok (HandleKeyDown wParam am)"
  by (simp add: HandleKeyDown_def MapNoteFrequency_registry_ok)

lemma HandleKeyUp_registry_ok:
  "registry_ok am \<Longrightarrow> registry_ok (HandleKeyUp wParam am)"
  by (simp add: HandleKeyUp_def registry_ok_def distinct_delete)

lemma HandleKeyUp_absent:
  "wParam \<notin> note_ids am \<Longrightarrow> HandleKeyUp wParam am = am"
  by (simp add: HandleKeyUp_def note_ids_def delete_id)

lemma HandleKeyUp_removes: "wParam \<notin> note_ids (HandleKeyUp wParam am)"
  by (simp add: HandleKeyUp_def note_ids_def delete_notin_dom)

text \<open>A key-down on a mapped key does put the key into the registry.\<close>

lemma HandleKeyDown_mapped_adds:
  "wParam \<in> set mapped_keys \<Longrightarrow> wParam \<in> note_ids (HandleKeyDown wParam am)"
proof (cases "map_of (m_activeNotes am) wParam")
  case None
  assume "wParam \<in> set mapped_keys"
  then obtain noteFreq where "MapNoteFrequency_chain wParam = Some noteFreq"
    using MapNoteFrequency_chain_Some by blast
  with None show ?thesis
    by (simp add: HandleKeyDown_def MapNoteFrequency_def note_ids_def dom_update)
next
  case (Some v)
  then have "wParam \<in> fst ` set (m_activeNotes am)"
    by (metis map_of_eq_None_iff option.distinct(1))
  with Some show ?thesis
    by (simp add: HandleKeyDown_def note_ids_def)
qed

text \<open>
  Claim C8. For every note-id: a key-up on an id that is not in the registry leaves the
  whole object unchanged (\<^const>\<open>HandleKeyUp\<close> has no failing branch, so no error is
  raised), and a key-down immediately followed by a key-up of the same id leaves the
  registry without that id.
\<close>

theorem note_off_absent_noop_and_on_off_removes:
  "(wParam \<notin> note_ids am \<longrightarrow> HandleKeyUp wParam am = am) \<and>
   wParam \<notin> note_ids (HandleKeyUp wParam (HandleKeyDown wParam am))"
  by (simp add: HandleKeyUp_absent HandleKeyUp_removes)

theorem note_off_absent_noop_and_on_off_removes_witness:
  "VirtualKeys_Q \<notin> note_ids am_example \<and>
   HandleKeyUp VirtualKeys_Q am_example = am_example \<and>
   note_ids (HandleKeyDown VirtualKeys_Q am_example) = {VirtualKeys_Z, VirtualKeys_Q} \<and>
   VirtualKeys_Q \<notin> note_ids (HandleKeyUp VirtualKeys_Q (HandleKeyDown VirtualKeys_Q am_example))"
  using note_off_absent_noop_and_on_off_removes [of VirtualKeys_Q am_example]
  by (simp add: note_ids_def am_example_def HandleKeyDown_def MapNoteFrequency_def
      MapNoteFrequency_chain_def VirtualKeys_defs)

text \<open>
  Claim C9. For every key code outside the seventeen mapped virtual keys, a key-down
  returns the object it was given: no registry entry is added, removed or modified, and
  the waveform selection is the same.
\<close>

theorem key_down_unmapped_unchanged:
  "wParam \<notin> set mapped_keys \<Longrightarrow> HandleKeyDown wParam am = am"
  by (simp add: HandleKeyDown_def MapNoteFrequency_def MapNoteFrequency_chain_None)

theorem key_down_unmapped_unchanged_witness:
  "(0x41 :: WPARAM) \<notin> set mapped_keys \<and> HandleKeyDown 0x41 am_example = am_example"
  using key_down_unmapped_unchanged [of "0x41" am_example]
  by (simp add: mapped_keys_def VirtualKeys_defs)

section \<open>Properties of the oscillators and of the mix\<close>

lemma trunc_nonneg: "0 \<le> x \<Longrightarrow> trunc x = \<lfloor>x\<rfloor>"
  by (simp add: trunc_def)




subsection \<open>The constant \<open>PI\<close>\<close>











lemma mix_loop_sum:
  "mix_loop osc dTime ns dOutput = dOutput + (\<Sum>key\<leftarrow>ns. osc (snd key) dTime)"
  by (induction ns arbitrary: dOutput) (simp_all add: Let_def)

lemma mix_loop_bound:
  assumes "\<And>f. \<bar>osc f dTime\<bar> \<le> 1"
  shows "\<bar>mix_loop osc dTime ns 0\<bar> \<le> real (length ns)"
proof -
  have "\<bar>\<Sum>key\<leftarrow>ns. osc (snd key) dTime\<bar> \<le> real (length ns)"
  proof (induction ns)
    case Nil show ?case by simp
  next
    case (Cons k ks)
    have "\<bar>osc (snd k) dTime\<bar> \<le> 1" by (rule assms)
    with Cons show ?case by simp
  qed
  then show ?thesis by (simp add: mix_loop_sum)
qed

lemma SineSoundMaker_bound: "\<bar>SineSoundMaker f t\<bar> \<le> 1"
  by (simp add: SineSoundMaker_def)

lemma SquareSoundMaker_bound: "\<bar>SquareSoundMaker f t\<bar> \<le> 1"
  by (simp add: SquareSoundMaker_def Let_def)

lemma MakeSineNoise_bound: "\<bar>MakeSineNoise am t\<bar> \<le> 0.5 * real (length (m_activeNotes am))"
  using mix_loop_bound [of SineSoundMaker t "m_activeNotes am"] SineSoundMaker_bound
  by (simp add: MakeSineNoise_def abs_mult)

lemma MakeSquareNoise_bound: "\<bar>MakeSquareNoise am t\<bar> \<le> 0.5 * real (length (m_activeNotes am))"
  using mix_loop_bound [of SquareSoundMaker t "m_activeNotes am"] SquareSoundMaker_bound
  by (simp add: MakeSquareNoise_def abs_mult)

lemma clip_id: "\<bar>x\<bar> \<le> 1 \<Longrightarrow> clip x 1 = x"
  by (simp add: clip_def)

lemma clip_range: "\<bar>clip x 1\<bar> \<le> 1"
  by (simp add: clip_def)

text \<open>
  Claim C10. At every time and for a registry of \<open>k\<close> entries, the value either mixing
  function returns has magnitude at most \<open>0.5 * k\<close>; with at most two entries it has
  magnitude at most \<open>1\<close>, and \<^const>\<open>clip\<close> at \<open>1.0\<close> returns it unchanged.
\<close>

theorem mix_bounded_by_half_note_count:
  "\<bar>MakeSineNoise am t\<bar> \<le> 0.5 * real (length (m_activeNotes am)) \<and>
   \<bar>MakeSquareNoise am t\<bar> \<le> 0.5 * real (length (m_activeNotes am)) \<and>
   (length (m_activeNotes am) \<le> 2 \<longrightarrow>
      \<bar>MakeSineNoise am t\<bar> \<le> 1 \<and> \<bar>MakeSquareNoise am t\<bar> \<le> 1 \<and>
      clip (MakeSineNoise am t) 1 = MakeSineNoise am t \<and>
      clip (MakeSquareNoise am t) 1 = MakeSquareNoise am t)"
proof -
  let ?k = "real (length (m_activeNotes am))"
  have s: "\<bar>MakeSineNoise am t\<bar> \<le> 0.5 * ?k" by (rule MakeSineNoise_bound)
  have q: "\<bar>MakeSquareNoise am t\<bar> \<le> 0.5 * ?k" by (rule MakeSquareNoise_bound)
  have "\<bar>MakeSineNoise am t\<bar> \<le> 1 \<and> \<bar>MakeSquareNoise am t\<bar> \<le> 1"
    if "length (m_activeNotes am) \<le> 2"
  proof -
    from that have "?k \<le> 2" by simp
    with s q show ?thesis by simp
  qed
  with s q show ?thesis by (simp add: clip_id)
qed

theorem mix_bounded_by_half_note_count_witness:
  "length (m_activeNotes am_example) \<le> 2 \<and>
   \<bar>MakeSineNoise am_example 0\<bar> \<le> 1 \<and> \<bar>MakeSquareNoise am_example 0\<bar> \<le> 1 \<and>
   clip (MakeSineNoise am_example 0) 1 = MakeSineNoise am_example 0 \<and>
   clip (MakeSquareNoise am_example 0) 1 = MakeSquareNoise am_example 0 \<and>
   MakeSquareNoise am_example 0 = 1 / 2"
  using mix_bounded_by_half_note_count [of am_example 0]
  by (simp add: am_example_def MakeSquareNoise_def SquareSoundMaker_def fmod_def trunc_def)

section \<open>Properties of the generation loop\<close>

subsection \<open>The inner loop\<close>

lemma unat_succ_less: "(n::u32) < s \<Longrightarrow> unat (n + 1) = unat n + 1"
proof -
  assume "n < s"
  then have "unat n < unat s" by (simp add: word_less_nat_alt)
  moreover have "unat s < 2 ^ 32" using unsigned_less [of s] by simp
  ultimately have "unat n + unat (1::u32) < 2 ^ LENGTH(32)" by simp
  then have "unat (n + 1) = unat n + unat (1::u32)" by (simp only: unat_add_lem)
  then show ?thesis by simp
qed

lemma unat_index_add:
  "unat (b::u32) + unat (s::u32) \<le> 2 ^ 32 \<Longrightarrow> n < s \<Longrightarrow> unat (b + n) = unat b + unat n"
proof -
  assume a: "unat b + unat s \<le> 2 ^ 32" and "n < s"
  then have "unat n < unat s" by (simp add: word_less_nat_alt)
  with a have "unat b + unat n < 2 ^ LENGTH(32)" by simp
  then show ?thesis by (simp only: unat_add_lem)
qed

lemma MainThread_new_sample_cong:
  "m_userFunction a = m_userFunction b \<Longrightarrow> m_dGlobalTime a = m_dGlobalTime b \<Longrightarrow>
   MainThread_new_sample fl dMax a = MainThread_new_sample fl dMax b"
  by (simp add: MainThread_new_sample_def split: option.split)

lemma word_succ_le: "(n::u32) < s \<Longrightarrow> n + 1 \<le> s"
  by (simp add: inc_le)

text \<open>The clock after \<open>n\<close> updates, counted from either end and in two parts.\<close>

lemma clock_from_shift:
  "clock_from fl dTimeStep t (Suc n) = clock_from fl dTimeStep (fl (t + dTimeStep)) n"
  by (induction n) simp_all

lemma clock_from_add:
  "clock_from fl dTimeStep t (a + b) = clock_from fl dTimeStep (clock_from fl dTimeStep t a) b"
  by (induction b) simp_all

lemma clock_from_exact: "clock_from id dTimeStep t n = t + real n * dTimeStep"
  by (induction n) (simp_all add: algebra_simps)

lemma clock_after_from: "clock_after fl dTimeStep n = clock_from fl dTimeStep 0 n"
  by (induction n) simp_all

lemma MainThread_for_spec:
  assumes "unat nCurrentBlock + unat (m_nBlockSamples nm) \<le> length (m_pBlockMemory nm)"
    and "unat nCurrentBlock + unat (m_nBlockSamples nm) \<le> 2 ^ 32"
    and "n \<le> m_nBlockSamples nm"
  shows "\<exists>nm'. MainThread_for fl dTimeStep dMax nCurrentBlock n nm = Some nm' \<and>
      m_dGlobalTime nm' =
        clock_from fl dTimeStep (m_dGlobalTime nm) (unat (m_nBlockSamples nm) - unat n) \<and>
      length (m_pBlockMemory nm') = length (m_pBlockMemory nm) \<and>
      (\<forall>j. unat n \<le> j \<and> j < unat (m_nBlockSamples nm) \<longrightarrow>
         m_pBlockMemory nm' ! (unat nCurrentBlock + j) =
           MainThread_new_sample fl dMax
             (nm\<lparr>m_dGlobalTime := clock_from fl dTimeStep (m_dGlobalTime nm) (j - unat n)\<rparr>)) \<and>
      (\<forall>i. i < unat nCurrentBlock + unat n \<or> unat nCurrentBlock + unat (m_nBlockSamples nm) \<le> i \<longrightarrow>
         m_pBlockMemory nm' ! i = m_pBlockMemory nm ! i) \<and>
      nm'\<lparr>m_pBlockMemory := m_pBlockMemory nm, m_dGlobalTime := m_dGlobalTime nm\<rparr> = nm"
  using assms
proof (induction fl dTimeStep dMax nCurrentBlock n nm rule: MainThread_for.induct)
  case (1 fl dTimeStep dMax nCurrentBlock n nm)
  let ?S = "m_nBlockSamples nm"
  let ?mem = "m_pBlockMemory nm"
  let ?t = "m_dGlobalTime nm"
  show ?case
  proof (cases "n < ?S")
    case False
    with 1(4) have "n = ?S" by simp
    then show ?thesis
      by (auto simp: MainThread_for.simps [of _ _ _ _ "m_nBlockSamples nm" nm])
  next
    case True
    then have nlt: "unat n < unat ?S" by (simp add: word_less_nat_alt)
    have idx: "unat (nCurrentBlock + n) = unat nCurrentBlock + unat n"
      using 1(3) True by (rule unat_index_add)
    let ?i = "unat nCurrentBlock + unat n"
    have ilt: "?i < length ?mem" using 1(2) nlt by simp
    let ?x = "nm\<lparr>m_pBlockMemory := ?mem[?i := MainThread_new_sample fl dMax nm],
                  m_dGlobalTime := fl (?t + dTimeStep)\<rparr>"
    have body: "MainThread_for_body fl dTimeStep dMax nCurrentBlock n nm = Some ?x"
      using ilt by (simp add: MainThread_for_body_def Let_def idx)
    have suc: "unat (n + 1) = unat n + 1" using True by (rule unat_succ_less)
    have "\<exists>nm'. MainThread_for fl dTimeStep dMax nCurrentBlock (n + 1) ?x = Some nm' \<and>
      m_dGlobalTime nm' =
        clock_from fl dTimeStep (m_dGlobalTime ?x) (unat (m_nBlockSamples ?x) - unat (n + 1)) \<and>
      length (m_pBlockMemory nm') = length (m_pBlockMemory ?x) \<and>
      (\<forall>j. unat (n + 1) \<le> j \<and> j < unat (m_nBlockSamples ?x) \<longrightarrow>
         m_pBlockMemory nm' ! (unat nCurrentBlock + j) =
           MainThread_new_sample fl dMax
             (?x\<lparr>m_dGlobalTime := clock_from fl dTimeStep (m_dGlobalTime ?x) (j - unat (n + 1))\<rparr>)) \<and>
      (\<forall>i. i < unat nCurrentBlock + unat (n + 1) \<or> unat nCurrentBlock + unat (m_nBlockSamples ?x) \<le> i \<longrightarrow>
         m_pBlockMemory nm' ! i = m_pBlockMemory ?x ! i) \<and>
      nm'\<lparr>m_pBlockMemory := m_pBlockMemory ?x, m_dGlobalTime := m_dGlobalTime ?x\<rparr> = ?x"
    proof (rule 1(1) [OF True body])
      show "unat nCurrentBlock + unat (m_nBlockSamples ?x) \<le> length (m_pBlockMemory ?x)"
        using 1(2) by simp
      show "unat nCurrentBlock + unat (m_nBlockSamples ?x) \<le> 2 ^ 32"
        using 1(3) by simp
      show "n + 1 \<le> m_nBlockSamples ?x"
        using True by (simp add: word_succ_le)
    qed
    then obtain nm' where run: "MainThread_for fl dTimeStep dMax nCurrentBlock (n + 1) ?x = Some nm'"
      and tm: "m_dGlobalTime nm' =
          clock_from fl dTimeStep (m_dGlobalTime ?x) (unat (m_nBlockSamples ?x) - unat (n + 1))"
      and len: "length (m_pBlockMemory nm') = length (m_pBlockMemory ?x)"
      and filled: "\<And>j. unat (n + 1) \<le> j \<Longrightarrow> j < unat (m_nBlockSamples ?x) \<Longrightarrow>
         m_pBlockMemory nm' ! (unat nCurrentBlock + j) =
           MainThread_new_sample fl dMax
             (?x\<lparr>m_dGlobalTime := clock_from fl dTimeStep (m_dGlobalTime ?x) (j - unat (n + 1))\<rparr>)"
      and kept: "\<And>i. i < unat nCurrentBlock + unat (n + 1) \<or> unat nCurrentBlock + unat (m_nBlockSamples ?x) \<le> i \<Longrightarrow>
         m_pBlockMemory nm' ! i = m_pBlockMemory ?x ! i"
      and rest: "nm'\<lparr>m_pBlockMemory := m_pBlockMemory ?x, m_dGlobalTime := m_dGlobalTime ?x\<rparr> = ?x"
      by blast
    have later: "clock_from fl dTimeStep (fl (?t + dTimeStep)) (k - Suc (unat n)) =
                 clock_from fl dTimeStep ?t (k - unat n)" if "unat n < k" for k
    proof -
      from that have "k - unat n = Suc (k - Suc (unat n))" by simp
      then show ?thesis by (simp only: clock_from_shift)
    qed
    have r1: "MainThread_for fl dTimeStep dMax nCurrentBlock n nm = Some nm'"
      using True body run by (simp add: MainThread_for.simps [of _ _ _ _ n nm])
    have r2: "m_dGlobalTime nm' = clock_from fl dTimeStep ?t (unat ?S - unat n)"
      using tm later [OF nlt] by (simp add: suc)
    have r3: "length (m_pBlockMemory nm') = length ?mem" using len by simp
    have r4: "m_pBlockMemory nm' ! (unat nCurrentBlock + j) =
           MainThread_new_sample fl dMax
             (nm\<lparr>m_dGlobalTime := clock_from fl dTimeStep ?t (j - unat n)\<rparr>)"
      if "unat n \<le> j" and "j < unat ?S" for j
    proof (cases "j = unat n")
      case True
      have "m_pBlockMemory nm' ! ?i = m_pBlockMemory ?x ! ?i"
        by (rule kept) (simp add: suc)
      also have "\<dots> = MainThread_new_sample fl dMax nm" using ilt by simp
      finally show ?thesis using True by simp
    next
      case False
      with that have j1: "unat n < j" by simp
      have "m_pBlockMemory nm' ! (unat nCurrentBlock + j) =
           MainThread_new_sample fl dMax
             (?x\<lparr>m_dGlobalTime := clock_from fl dTimeStep (fl (?t + dTimeStep)) (j - Suc (unat n))\<rparr>)"
        using filled [of j] j1 that(2) by (simp add: suc)
      also have "\<dots> = MainThread_new_sample fl dMax
             (nm\<lparr>m_dGlobalTime := clock_from fl dTimeStep ?t (j - unat n)\<rparr>)"
        by (rule MainThread_new_sample_cong) (simp_all add: later [OF j1])
      finally show ?thesis .
    qed
    have r5: "m_pBlockMemory nm' ! i = ?mem ! i"
      if "i < unat nCurrentBlock + unat n \<or> unat nCurrentBlock + unat ?S \<le> i" for i
    proof -
      have "m_pBlockMemory nm' ! i = m_pBlockMemory ?x ! i"
        using that by (intro kept) (auto simp: suc)
      moreover have "i \<noteq> ?i" using that nlt by auto
      ultimately show ?thesis by simp
    qed
    have r6: "nm'\<lparr>m_pBlockMemory := ?mem, m_dGlobalTime := ?t\<rparr> = nm"
    proof -
      have "nm'\<lparr>m_pBlockMemory := ?mem, m_dGlobalTime := ?t\<rparr> =
            (nm'\<lparr>m_pBlockMemory := m_pBlockMemory ?x, m_dGlobalTime := m_dGlobalTime ?x\<rparr>)
              \<lparr>m_pBlockMemory := ?mem, m_dGlobalTime := ?t\<rparr>"
        by simp
      also have "\<dots> = ?x\<lparr>m_pBlockMemory := ?mem, m_dGlobalTime := ?t\<rparr>"
        by (simp only: rest)
      also have "\<dots> = nm" by simp
      finally show ?thesis .
    qed
    from r1 r2 r3 r4 r5 r6 show ?thesis by blast
  qed
qed

subsection \<open>One block, and a run of blocks\<close>

lemma block_base:
  assumes "engine_ok nm"
  shows "unat (m_nBlockCurrent nm * m_nBlockSamples nm) = unat (m_nBlockCurrent nm) * unat (m_nBlockSamples nm)"
    and "unat (m_nBlockCurrent nm) * unat (m_nBlockSamples nm) + unat (m_nBlockSamples nm)
          \<le> unat (m_nBlockCount nm) * unat (m_nBlockSamples nm)"
proof -
  let ?c = "unat (m_nBlockCurrent nm)" and ?N = "unat (m_nBlockCount nm)" and ?S = "unat (m_nBlockSamples nm)"
  from assms have c: "?c < ?N" and b: "?N * ?S < 2 ^ 32"
    by (simp_all add: engine_ok_def word_less_nat_alt)
  from c have "Suc ?c \<le> ?N" by simp
  then have "Suc ?c * ?S \<le> ?N * ?S" by (rule mult_le_mono1)
  then show le: "?c * ?S + ?S \<le> ?N * ?S" by simp
  with b have "?c * ?S < 2 ^ LENGTH(32)" by simp
  then show "unat (m_nBlockCurrent nm * m_nBlockSamples nm) = ?c * ?S"
    by (simp only: unat_mult_lem)
qed

lemma next_index:
  assumes "(c::u32) < N"
  shows "unat ((c + 1) mod N) = (unat c + 1) mod unat N"
proof -
  have "unat (c + 1) = unat c + 1" using assms by (rule unat_succ_less)
  then show ?thesis by (simp add: unat_mod)
qed


lemma MainThread_block_spec:
  assumes ok: "engine_ok nm"
  shows "\<exists>nm'. MainThread_block fl dTimeStep dMax nm = Some (m_nBlockCurrent nm, nm') \<and>
      engine_ok nm' \<and>
      unat (m_nBlockCurrent nm') = (unat (m_nBlockCurrent nm) + 1) mod unat (m_nBlockCount nm) \<and>
      m_nBlockFree nm' = m_nBlockFree nm - 1 \<and>
      m_dGlobalTime nm' = clock_from fl dTimeStep (m_dGlobalTime nm) (unat (m_nBlockSamples nm)) \<and>
      (\<forall>j < unat (m_nBlockSamples nm).
         m_pBlockMemory nm' ! (unat (m_nBlockCurrent nm) * unat (m_nBlockSamples nm) + j) =
           MainThread_new_sample fl dMax
             (nm\<lparr>m_dGlobalTime := clock_from fl dTimeStep (m_dGlobalTime nm) j\<rparr>)) \<and>
      (\<forall>i. i < unat (m_nBlockCurrent nm) * unat (m_nBlockSamples nm) \<or>
           unat (m_nBlockCurrent nm) * unat (m_nBlockSamples nm) + unat (m_nBlockSamples nm) \<le> i \<longrightarrow>
         m_pBlockMemory nm' ! i = m_pBlockMemory nm ! i) \<and>
      m_nBlockCount nm' = m_nBlockCount nm \<and> m_nBlockSamples nm' = m_nBlockSamples nm \<and>
      m_nSampleRate nm' = m_nSampleRate nm \<and> m_nChannels nm' = m_nChannels nm \<and>
      m_userFunction nm' = m_userFunction nm \<and> m_bReady nm' = m_bReady nm"
proof -
  let ?nm1 = "nm\<lparr>m_nBlockFree := m_nBlockFree nm - 1\<rparr>"
  let ?c = "m_nBlockCurrent nm" and ?N = "m_nBlockCount nm" and ?S = "m_nBlockSamples nm"
  let ?b = "?c * ?S"
  from ok have cN: "?c < ?N" and len: "length (m_pBlockMemory nm) = unat ?N * unat ?S"
    and bound: "unat ?N * unat ?S < 2 ^ 32"
    by (simp_all add: engine_ok_def)
  have base: "unat ?b = unat ?c * unat ?S" using ok by (rule block_base(1))
  have room: "unat ?c * unat ?S + unat ?S \<le> unat ?N * unat ?S" using ok by (rule block_base(2))
  have "\<exists>nm2. MainThread_for fl dTimeStep dMax ?b 0 ?nm1 = Some nm2 \<and>
      m_dGlobalTime nm2 =
        clock_from fl dTimeStep (m_dGlobalTime ?nm1) (unat (m_nBlockSamples ?nm1) - unat (0::u32)) \<and>
      length (m_pBlockMemory nm2) = length (m_pBlockMemory ?nm1) \<and>
      (\<forall>j. unat (0::u32) \<le> j \<and> j < unat (m_nBlockSamples ?nm1) \<longrightarrow>
         m_pBlockMemory nm2 ! (unat ?b + j) =
           MainThread_new_sample fl dMax
             (?nm1\<lparr>m_dGlobalTime := clock_from fl dTimeStep (m_dGlobalTime ?nm1) (j - unat (0::u32))\<rparr>)) \<and>
      (\<forall>i. i < unat ?b + unat (0::u32) \<or> unat ?b + unat (m_nBlockSamples ?nm1) \<le> i \<longrightarrow>
         m_pBlockMemory nm2 ! i = m_pBlockMemory ?nm1 ! i) \<and>
      nm2\<lparr>m_pBlockMemory := m_pBlockMemory ?nm1, m_dGlobalTime := m_dGlobalTime ?nm1\<rparr> = ?nm1"
  proof (rule MainThread_for_spec)
    show "unat ?b + unat (m_nBlockSamples ?nm1) \<le> length (m_pBlockMemory ?nm1)"
      using room len base by simp
    show "unat ?b + unat (m_nBlockSamples ?nm1) \<le> 2 ^ 32"
      using room bound base by simp
    show "0 \<le> m_nBlockSamples ?nm1" by simp
  qed
  then obtain nm2 where run: "MainThread_for fl dTimeStep dMax ?b 0 ?nm1 = Some nm2"
    and tm: "m_dGlobalTime nm2 = clock_from fl dTimeStep (m_dGlobalTime nm) (unat ?S)"
    and len2: "length (m_pBlockMemory nm2) = length (m_pBlockMemory nm)"
    and filled: "\<And>j. j < unat ?S \<Longrightarrow> m_pBlockMemory nm2 ! (unat ?b + j) =
           MainThread_new_sample fl dMax
             (?nm1\<lparr>m_dGlobalTime := clock_from fl dTimeStep (m_dGlobalTime nm) j\<rparr>)"
    and kept: "\<And>i. i < unat ?b \<or> unat ?b + unat ?S \<le> i \<Longrightarrow>
         m_pBlockMemory nm2 ! i = m_pBlockMemory nm ! i"
    and rest: "nm2\<lparr>m_pBlockMemory := m_pBlockMemory nm, m_dGlobalTime := m_dGlobalTime nm\<rparr> = ?nm1"
    by auto
  have fields: "m_nBlockCurrent nm2 = ?c" "m_nBlockCount nm2 = ?N" "m_nBlockSamples nm2 = ?S"
    "m_nBlockFree nm2 = m_nBlockFree nm - 1" "m_nSampleRate nm2 = m_nSampleRate nm"
    "m_nChannels nm2 = m_nChannels nm" "m_userFunction nm2 = m_userFunction nm"
    "m_bReady nm2 = m_bReady nm"
  proof -
    have "m_nBlockCurrent (nm2\<lparr>m_pBlockMemory := m_pBlockMemory nm, m_dGlobalTime := m_dGlobalTime nm\<rparr>) = m_nBlockCurrent ?nm1"
      by (simp only: rest)
    then show "m_nBlockCurrent nm2 = ?c" by simp
    have "m_nBlockCount (nm2\<lparr>m_pBlockMemory := m_pBlockMemory nm, m_dGlobalTime := m_dGlobalTime nm\<rparr>) = m_nBlockCount ?nm1"
      by (simp only: rest)
    then show "m_nBlockCount nm2 = ?N" by simp
    have "m_nBlockSamples (nm2\<lparr>m_pBlockMemory := m_pBlockMemory nm, m_dGlobalTime := m_dGlobalTime nm\<rparr>) = m_nBlockSamples ?nm1"
      by (simp only: rest)
    then show "m_nBlockSamples nm2 = ?S" by simp
    have "m_nBlockFree (nm2\<lparr>m_pBlockMemory := m_pBlockMemory nm, m_dGlobalTime := m_dGlobalTime nm\<rparr>) = m_nBlockFree ?nm1"
      by (simp only: rest)
    then show "m_nBlockFree nm2 = m_nBlockFree nm - 1" by simp
    have "m_nSampleRate (nm2\<lparr>m_pBlockMemory := m_pBlockMemory nm, m_dGlobalTime := m_dGlobalTime nm\<rparr>) = m_nSampleRate ?nm1"
      by (simp only: rest)
    then show "m_nSampleRate nm2 = m_nSampleRate nm" by simp
    have "m_nChannels (nm2\<lparr>m_pBlockMemory := m_pBlockMemory nm, m_dGlobalTime := m_dGlobalTime nm\<rparr>) = m_nChannels ?nm1"
      by (simp only: rest)
    then show "m_nChannels nm2 = m_nChannels nm" by simp
    have "m_userFunction (nm2\<lparr>m_pBlockMemory := m_pBlockMemory nm, m_dGlobalTime := m_dGlobalTime nm\<rparr>) = m_userFunction ?nm1"
      by (simp only: rest)
    then show "m_userFunction nm2 = m_userFunction nm" by simp
    have "m_bReady (nm2\<lparr>m_pBlockMemory := m_pBlockMemory nm, m_dGlobalTime := m_dGlobalTime nm\<rparr>) = m_bReady ?nm1"
      by (simp only: rest)
    then show "m_bReady nm2 = m_bReady nm" by simp
  qed
  let ?nm' = "nm2\<lparr>m_nBlockCurrent := (m_nBlockCurrent nm2 + 1) mod m_nBlockCount nm2\<rparr>"
  have blk: "MainThread_block fl dTimeStep dMax nm = Some (?c, ?nm')"
    using cN run by (simp add: MainThread_block_def Let_def fields)
  have nxt: "unat (m_nBlockCurrent ?nm') = (unat ?c + 1) mod unat ?N"
    using cN by (simp add: fields next_index)
  have Npos: "0 < unat ?N" using cN by (simp add: word_less_nat_alt)
  have ok': "engine_ok ?nm'"
    unfolding engine_ok_def using nxt Npos bound len len2
    by (simp add: fields word_less_nat_alt)
  have smp: "m_pBlockMemory ?nm' ! (unat ?c * unat ?S + j) =
           MainThread_new_sample fl dMax
             (nm\<lparr>m_dGlobalTime := clock_from fl dTimeStep (m_dGlobalTime nm) j\<rparr>)"
    if "j < unat ?S" for j
  proof -
    have "m_pBlockMemory nm2 ! (unat ?b + j) =
           MainThread_new_sample fl dMax
             (?nm1\<lparr>m_dGlobalTime := clock_from fl dTimeStep (m_dGlobalTime nm) j\<rparr>)"
      using that by (rule filled)
    moreover have "MainThread_new_sample fl dMax
             (?nm1\<lparr>m_dGlobalTime := clock_from fl dTimeStep (m_dGlobalTime nm) j\<rparr>) =
           MainThread_new_sample fl dMax
             (nm\<lparr>m_dGlobalTime := clock_from fl dTimeStep (m_dGlobalTime nm) j\<rparr>)"
      by (rule MainThread_new_sample_cong) simp_all
    ultimately show ?thesis by (simp add: base)
  qed
  have kp: "m_pBlockMemory ?nm' ! i = m_pBlockMemory nm ! i"
    if "i < unat ?c * unat ?S \<or> unat ?c * unat ?S + unat ?S \<le> i" for i
    using kept [of i] that by (simp add: base)
  show ?thesis
    using blk ok' nxt smp kp tm by (intro exI [of _ ?nm']) (simp add: fields)
qed

lemma dMaxSample_eq: "dMaxSample = 2 ^ 31 - 1"
  by (simp add: dMaxSample_def nMaxSample_def double_to_T_def trunc_def)

lemma trunc_bounds:
  assumes "\<bar>x\<bar> \<le> real_of_int k"
  shows "- k \<le> trunc x \<and> trunc x \<le> k"
proof -
  have k: "0 \<le> k" using assms by linarith
  show ?thesis
  proof (cases "0 \<le> x")
    case True
    with assms have "x \<le> real_of_int k" by simp
    then have up: "\<lfloor>x\<rfloor> \<le> k" by (simp add: floor_le_iff)
    have lo: "0 \<le> \<lfloor>x\<rfloor>" using True by simp
    have "- k \<le> \<lfloor>x\<rfloor> \<and> \<lfloor>x\<rfloor> \<le> k" using k up lo by linarith
    moreover have "trunc x = \<lfloor>x\<rfloor>" using True by (simp add: trunc_def)
    ultimately show ?thesis by (simp only:)
  next
    case False
    with assms have "real_of_int (- k) \<le> x" by simp
    then have lo: "- k \<le> \<lceil>x\<rceil>" by (simp add: le_ceiling_iff)
    have up: "\<lceil>x\<rceil> \<le> 0" using False by (simp add: ceiling_le_iff)
    have "- k \<le> \<lceil>x\<rceil> \<and> \<lceil>x\<rceil> \<le> k" using k up lo by linarith
    moreover have "trunc x = \<lceil>x\<rceil>" using False by (simp add: trunc_def)
    ultimately show ?thesis by (simp only:)
  qed
qed

lemma sint_double_to_T:
  assumes "\<bar>x\<bar> \<le> 2 ^ 31 - 1"
  shows "sint (double_to_T x) = trunc x"
proof -
  have "\<bar>x\<bar> \<le> real_of_int (2 ^ 31 - 1)" using assms by simp
  then have "- (2 ^ 31 - 1) \<le> trunc x \<and> trunc x \<le> 2 ^ 31 - 1"
    by (rule trunc_bounds)
  then show ?thesis
    by (simp add: double_to_T_def int_word_sint)
qed

lemma quantise_in_range:
  "sint (double_to_T (clip x 1 * dMaxSample)) = trunc (clip x 1 * (2 ^ 31 - 1))"
proof -
  have "\<bar>clip x 1 * (2 ^ 31 - 1)\<bar> \<le> 1 * (2 ^ 31 - 1)"
    using clip_range [of x] by (simp add: abs_mult)
  then show ?thesis by (simp add: dMaxSample_eq sint_double_to_T)
qed


lemma StaticNoiseCallback_sum:
  "StaticNoiseCallback (Some am) t =
     0.5 * (\<Sum>key\<leftarrow>m_activeNotes am.
        (case m_currentWaveType am of Sine \<Rightarrow> SineSoundMaker | Square \<Rightarrow> SquareSoundMaker) (snd key) t)"
  by (simp add: StaticNoiseCallback_def MakeSineNoise_def MakeSquareNoise_def mix_loop_sum
      split: WaveType.split)

lemma MainThread_blocks_spec:
  assumes "engine_ok nm"
  shows "\<exists>written nm'. MainThread_blocks fl M dTimeStep dMax nm = Some (written, nm') \<and>
      engine_ok nm' \<and> length written = M \<and>
      (\<forall>j < M. unat (written ! j) = (unat (m_nBlockCurrent nm) + j) mod unat (m_nBlockCount nm)) \<and>
      unat (m_nBlockCurrent nm') = (unat (m_nBlockCurrent nm) + M) mod unat (m_nBlockCount nm) \<and>
      m_dGlobalTime nm' = clock_from fl dTimeStep (m_dGlobalTime nm) (M * unat (m_nBlockSamples nm)) \<and>
      m_nBlockCount nm' = m_nBlockCount nm \<and> m_nBlockSamples nm' = m_nBlockSamples nm"
  using assms
proof (induction M arbitrary: nm)
  case 0
  then have "m_nBlockCurrent nm < m_nBlockCount nm" by (simp add: engine_ok_def)
  then have "unat (m_nBlockCurrent nm) < unat (m_nBlockCount nm)" by (simp add: word_less_nat_alt)
  with 0 show ?case by simp
next
  case (Suc M)
  let ?c = "unat (m_nBlockCurrent nm)" and ?N = "unat (m_nBlockCount nm)" and ?S = "unat (m_nBlockSamples nm)"
  from Suc.prems have cN: "?c < ?N" by (simp add: engine_ok_def word_less_nat_alt)
  obtain nm1 where b: "MainThread_block fl dTimeStep dMax nm = Some (m_nBlockCurrent nm, nm1)"
    and ok1: "engine_ok nm1"
    and c1: "unat (m_nBlockCurrent nm1) = (?c + 1) mod ?N"
    and t1: "m_dGlobalTime nm1 = clock_from fl dTimeStep (m_dGlobalTime nm) ?S"
    and N1: "m_nBlockCount nm1 = m_nBlockCount nm" and S1: "m_nBlockSamples nm1 = m_nBlockSamples nm"
    using MainThread_block_spec [OF Suc.prems, of fl dTimeStep dMax] by blast
  obtain written nm' where r: "MainThread_blocks fl M dTimeStep dMax nm1 = Some (written, nm')"
    and ok': "engine_ok nm'" and lw: "length written = M"
    and idx: "\<And>j. j < M \<Longrightarrow> unat (written ! j) = (unat (m_nBlockCurrent nm1) + j) mod unat (m_nBlockCount nm1)"
    and c': "unat (m_nBlockCurrent nm') = (unat (m_nBlockCurrent nm1) + M) mod unat (m_nBlockCount nm1)"
    and t': "m_dGlobalTime nm' =
               clock_from fl dTimeStep (m_dGlobalTime nm1) (M * unat (m_nBlockSamples nm1))"
    and N': "m_nBlockCount nm' = m_nBlockCount nm1" and S': "m_nBlockSamples nm' = m_nBlockSamples nm1"
    using Suc.IH [OF ok1] by blast
  have run: "MainThread_blocks fl (Suc M) dTimeStep dMax nm = Some (m_nBlockCurrent nm # written, nm')"
    using b r by simp
  have shift: "(Suc ?c mod ?N + k) mod ?N = Suc (?c + k) mod ?N" for k
    using mod_add_left_eq [of "Suc ?c" ?N k] by simp
  have i': "unat ((m_nBlockCurrent nm # written) ! j) = (?c + j) mod ?N" if "j < Suc M" for j
  proof (cases j)
    case 0
    then show ?thesis using cN by simp
  next
    case (Suc k)
    with that have "k < M" by simp
    then have "unat (written ! k) = ((?c + 1) mod ?N + k) mod ?N"
      using idx [of k] by (simp add: c1 N1)
    then show ?thesis using Suc by (simp add: shift)
  qed
  have cc: "unat (m_nBlockCurrent nm') = (?c + Suc M) mod ?N"
    using c' by (simp add: c1 N1 shift)
  have tt: "m_dGlobalTime nm' = clock_from fl dTimeStep (m_dGlobalTime nm) (Suc M * ?S)"
  proof -
    have "m_dGlobalTime nm' =
            clock_from fl dTimeStep (clock_from fl dTimeStep (m_dGlobalTime nm) ?S) (M * ?S)"
      using t' by (simp only: t1 S1)
    also have "\<dots> = clock_from fl dTimeStep (m_dGlobalTime nm) (?S + M * ?S)"
      by (simp only: clock_from_add)
    finally show ?thesis by simp
  qed
  show ?case
    using run ok' lw i' cc tt N' S' N1 S1
    by (intro exI [of _ "m_nBlockCurrent nm # written"] exI [of _ nm']) simp
qed

lemma Create_engine_ok:
  assumes "dev \<noteq> OpenFailed" and "nBlocks \<noteq> 0" and "unat nBlocks * unat nBlockSamples < 2 ^ 32"
  shows "fst (Create dev nSampleRate nChannels nBlocks nBlockSamples nm) \<and>
         engine_ok (snd (Create dev nSampleRate nChannels nBlocks nBlockSamples nm)) \<and>
         m_nBlockFree (snd (Create dev nSampleRate nChannels nBlocks nBlockSamples nm)) = nBlocks"
proof -
  have "unat (nBlocks * nBlockSamples) = unat nBlocks * unat nBlockSamples"
    using assms(3) by (simp add: unat_mult_lem [symmetric])
  moreover have "0 < nBlocks" using assms(2) by (simp add: word_greater_zero_iff)
  ultimately show ?thesis using assms(1) assms(3)
    by (simp add: Create_def Let_def engine_ok_def)
qed

lemma nm_example_ok: "engine_ok nm_example"
  by (simp add: nm_example_def SetUserFunction_def Create_def Let_def engine_ok_def)


lemma nm_example_fields:
  "m_nBlockCurrent nm_example = 0" "m_nBlockSamples nm_example = 2" "m_nBlockCount nm_example = 2"
  "m_nSampleRate nm_example = 4" "m_dGlobalTime nm_example = 0"
  by (simp_all add: nm_example_def SetUserFunction_def Create_def Let_def nm_raw_def)


subsection \<open>The clock under rounding\<close>

text \<open>
  With exact addition the clock after \<open>n\<close> samples is \<open>n\<close> steps. Whatever the rounding,
  the clock of the loop after \<open>M\<close> blocks is \<^const>\<open>clock_after\<close> at the rounded step.
\<close>

lemma clock_after_exact: "clock_after id dTimeStep n = real n * dTimeStep"
  by (induction n) (simp_all add: algebra_simps)

lemma MainThread_generate_clock:
  assumes "engine_ok nm" and "m_nSampleRate nm \<noteq> 0"
  shows "\<exists>written nm'. MainThread_generate fl M nm = Some (written, nm') \<and>
     m_dGlobalTime nm' =
       clock_after fl (fl (1 / real (unat (m_nSampleRate nm)))) (M * unat (m_nBlockSamples nm))"
proof -
  let ?nm0 = "nm\<lparr>m_dGlobalTime := 0\<rparr>"
  let ?dt = "fl (1 / real (unat (m_nSampleRate nm)))"
  have "engine_ok ?nm0" using assms(1) by (simp add: engine_ok_def)
  then obtain written nm' where
    r: "MainThread_blocks fl M ?dt dMaxSample ?nm0 = Some (written, nm')"
    and t: "m_dGlobalTime nm' =
              clock_from fl ?dt (m_dGlobalTime ?nm0) (M * unat (m_nBlockSamples ?nm0))"
    using MainThread_blocks_spec [of ?nm0 fl M ?dt dMaxSample] by blast
  have "MainThread_generate fl M nm = Some (written, nm')"
    using assms(2) r by (simp add: MainThread_generate_def Let_def)
  moreover have "m_dGlobalTime nm' = clock_after fl ?dt (M * unat (m_nBlockSamples nm))"
    using t by (simp add: clock_after_from)
  ultimately show ?thesis by blast
qed

text \<open>
  The program adds in \<^verbatim>\<open>double\<close>. Whatever the rounding \<open>fl\<close> of that addition is: if it
  is monotone, leaves its own results and zero unchanged, and the step is not negative,
  the clock never decreases; and if its relative error is at most \<open>u\<close>, the clock after
  \<open>n\<close> samples is within \<open>((1 + u) ^ n - 1) * n * dTimeStep\<close> of \<open>n * dTimeStep\<close>, and,
  the step being the rounded quotient \<open>1 / R\<close>, within \<open>((1 + u) ^ (n + 1) - 1) * n / R\<close>
  of \<open>n / R\<close>.
\<close>

lemma clock_after_fixed:
  assumes "fl 0 = 0" and "\<And>x. fl (fl x) = fl x"
  shows "fl (clock_after fl dTimeStep n) = clock_after fl dTimeStep n"
  by (cases n) (simp_all add: assms)

lemma clock_after_mono:
  assumes "fl 0 = 0" and "\<And>x. fl (fl x) = fl x" and "\<And>x y. x \<le> y \<Longrightarrow> fl x \<le> fl y"
    and "0 \<le> dTimeStep"
  shows "clock_after fl dTimeStep n \<le> clock_after fl dTimeStep (Suc n)"
proof -
  have "clock_after fl dTimeStep n \<le> clock_after fl dTimeStep n + dTimeStep"
    using assms(4) by simp
  then have "fl (clock_after fl dTimeStep n) \<le> fl (clock_after fl dTimeStep n + dTimeStep)"
    by (rule assms(3))
  then show ?thesis by (simp add: clock_after_fixed [OF assms(1,2)])
qed

lemma clock_after_error:
  assumes rel: "\<And>x. \<bar>fl x - x\<bar> \<le> u * \<bar>x\<bar>" and u: "0 \<le> u" and dt: "0 \<le> dTimeStep"
  shows "\<bar>clock_after fl dTimeStep n - real n * dTimeStep\<bar>
           \<le> ((1 + u) ^ n - 1) * (real n * dTimeStep)"
proof (induction n)
  case 0
  show ?case by simp
next
  case (Suc n)
  let ?c = "clock_after fl dTimeStep n"
  let ?t = "real n * dTimeStep"
  let ?p = "(1 + u) ^ n"
  have p1: "1 \<le> ?p" using u by (simp add: one_le_power)
  have t0: "0 \<le> ?t" using dt by simp
  have e: "\<bar>?c - ?t\<bar> \<le> (?p - 1) * ?t" by (rule Suc.IH)
  have "\<bar>fl (?c + dTimeStep) - (?c + dTimeStep)\<bar> \<le> u * \<bar>?c + dTimeStep\<bar>" by (rule rel)
  moreover have "\<bar>?c + dTimeStep\<bar> \<le> \<bar>?c - ?t\<bar> + (?t + dTimeStep)"
    using t0 dt by linarith
  ultimately have r: "\<bar>fl (?c + dTimeStep) - (?c + dTimeStep)\<bar> \<le> u * (\<bar>?c - ?t\<bar> + (?t + dTimeStep))"
    using u by (meson mult_left_mono order_trans)
  have "\<bar>fl (?c + dTimeStep) - (?t + dTimeStep)\<bar>
          \<le> \<bar>fl (?c + dTimeStep) - (?c + dTimeStep)\<bar> + \<bar>?c - ?t\<bar>"
    by linarith
  also have "\<dots> \<le> u * (\<bar>?c - ?t\<bar> + (?t + dTimeStep)) + \<bar>?c - ?t\<bar>"
    using r by linarith
  also have "\<dots> = (1 + u) * \<bar>?c - ?t\<bar> + u * (?t + dTimeStep)"
    by (simp add: algebra_simps)
  also have "\<dots> \<le> (1 + u) * ((?p - 1) * ?t) + u * (?t + dTimeStep)"
    using e u by (simp add: mult_left_mono)
  also have "\<dots> \<le> (1 + u) * ((?p - 1) * (?t + dTimeStep)) + u * (?t + dTimeStep)"
  proof -
    have "(?p - 1) * ?t \<le> (?p - 1) * (?t + dTimeStep)"
      using p1 dt by (simp add: mult_left_mono)
    then show ?thesis using u by (simp add: mult_left_mono)
  qed
  also have "\<dots> = ((1 + u) * ?p - 1) * (?t + dTimeStep)"
    by (simp add: algebra_simps)
  finally show ?case by (simp add: algebra_simps)
qed

lemma clock_after_error_rate:
  assumes rel: "\<And>x. \<bar>fl x - x\<bar> \<le> u * \<bar>x\<bar>" and u: "0 \<le> u" "u \<le> 1" and R: "0 < R"
  shows "\<bar>clock_after fl (fl (1 / R)) n - real n / R\<bar> \<le> ((1 + u) ^ Suc n - 1) * (real n / R)"
proof -
  define r where "r = 1 / R"
  define d where "d = fl r"
  define c where "c = clock_after fl d n"
  define p where "p = (1 + u) ^ n"
  define m where "m = real n"
  have r0: "0 \<le> r" using R by (simp add: r_def)
  have m0: "0 \<le> m" by (simp add: m_def)
  have p1: "1 \<le> p" using u(1) by (simp add: p_def one_le_power)
  have "\<bar>d - r\<bar> \<le> u * \<bar>r\<bar>" unfolding d_def by (rule rel)
  then have dr: "\<bar>d - r\<bar> \<le> u * r" using r0 by simp
  have "u * r \<le> 1 * r" using u(2) r0 by (rule mult_right_mono)
  with dr have d0: "0 \<le> d" by linarith
  from dr have "d \<le> r + u * r" by linarith
  also have "\<dots> = (1 + u) * r" by (simp add: algebra_simps)
  finally have dup: "d \<le> (1 + u) * r" .
  have e1: "\<bar>c - m * d\<bar> \<le> (p - 1) * (m * d)"
    unfolding c_def p_def m_def using rel u(1) d0 by (rule clock_after_error)
  have md: "m * d \<le> m * ((1 + u) * r)" using dup m0 by (rule mult_left_mono)
  have p0: "0 \<le> p - 1" using p1 by simp
  have "(p - 1) * (m * d) \<le> (p - 1) * (m * ((1 + u) * r))" using md p0 by (rule mult_left_mono)
  with e1 have e2: "\<bar>c - m * d\<bar> \<le> (p - 1) * (m * ((1 + u) * r))" by linarith
  have "m * d - m * r = m * (d - r)" by (simp add: algebra_simps)
  then have "\<bar>m * d - m * r\<bar> = \<bar>m\<bar> * \<bar>d - r\<bar>" by (simp only: abs_mult)
  also have "\<dots> = m * \<bar>d - r\<bar>" using m0 by simp
  also have "\<dots> \<le> m * (u * r)" using dr m0 by (rule mult_left_mono)
  finally have e3: "\<bar>m * d - m * r\<bar> \<le> m * (u * r)" .
  have "\<bar>c - m * r\<bar> \<le> \<bar>c - m * d\<bar> + \<bar>m * d - m * r\<bar>" by linarith
  also have "\<dots> \<le> (p - 1) * (m * ((1 + u) * r)) + m * (u * r)" using e2 e3 by linarith
  also have "\<dots> = ((1 + u) * p - 1) * (m * r)" by (simp add: algebra_simps)
  finally have "\<bar>c - m * r\<bar> \<le> ((1 + u) * p - 1) * (m * r)" .
  then show ?thesis by (simp add: c_def d_def r_def p_def m_def)
qed

subsection \<open>The claims about the loop\<close>



text \<open>
  Claim C4. In every state in which the current index lies inside the ring, a pass of the
  loop hands the current block to \<^verbatim>\<open>waveOutWrite\<close> and leaves the index at the old one plus
  one modulo the pool size; over any number \<open>M\<close> of passes the \<open>j\<close>-th block written is the
  block \<open>(start + j) mod N\<close>, so blocks are filled and submitted in ring order and in no
  other. (The device plays headers in the order of the \<^verbatim>\<open>waveOutWrite\<close> calls.) This holds
  for every time step, every sample scale and every rounding of the loop's arithmetic.
\<close>

theorem block_rotation_round_robin:
  assumes "engine_ok nm"
  shows "(\<exists>nm'. MainThread_block fl dTimeStep dMax nm = Some (m_nBlockCurrent nm, nm') \<and>
           unat (m_nBlockCurrent nm') = (unat (m_nBlockCurrent nm) + 1) mod unat (m_nBlockCount nm)) \<and>
         (\<exists>written nm'. MainThread_blocks fl M dTimeStep dMax nm = Some (written, nm') \<and>
           length written = M \<and>
           (\<forall>j < M. unat (written ! j) = (unat (m_nBlockCurrent nm) + j) mod unat (m_nBlockCount nm)) \<and>
           unat (m_nBlockCurrent nm') = (unat (m_nBlockCurrent nm) + M) mod unat (m_nBlockCount nm))"
proof
  show "\<exists>nm'. MainThread_block fl dTimeStep dMax nm = Some (m_nBlockCurrent nm, nm') \<and>
           unat (m_nBlockCurrent nm') = (unat (m_nBlockCurrent nm) + 1) mod unat (m_nBlockCount nm)"
    using MainThread_block_spec [OF assms, of fl dTimeStep dMax] by blast
  show "\<exists>written nm'. MainThread_blocks fl M dTimeStep dMax nm = Some (written, nm') \<and>
           length written = M \<and>
           (\<forall>j < M. unat (written ! j) = (unat (m_nBlockCurrent nm) + j) mod unat (m_nBlockCount nm)) \<and>
           unat (m_nBlockCurrent nm') = (unat (m_nBlockCurrent nm) + M) mod unat (m_nBlockCount nm)"
    using MainThread_blocks_spec [OF assms, of fl M dTimeStep dMax] by blast
qed

theorem block_rotation_round_robin_witness:
  "engine_ok nm_example \<and>
   (\<exists>nm'. MainThread_block id (1 / 4) dMaxSample nm_example = Some (0, nm') \<and>
      unat (m_nBlockCurrent nm') = 1) \<and>
   (\<exists>written nm'. MainThread_blocks id 3 (1 / 4) dMaxSample nm_example = Some (written, nm') \<and>
      length written = 3 \<and> unat (written ! 0) = 0 \<and> unat (written ! 1) = 1 \<and>
      unat (written ! 2) = 0 \<and> unat (m_nBlockCurrent nm') = 1)"
proof -
  note rr = block_rotation_round_robin [OF nm_example_ok, of id "1 / 4" dMaxSample 3]
  from rr have one: "\<exists>nm'. MainThread_block id (1 / 4) dMaxSample nm_example = Some (0, nm') \<and>
      unat (m_nBlockCurrent nm') = 1"
    by (simp add: nm_example_fields)
  from rr obtain written nm' where
    r: "MainThread_blocks id 3 (1 / 4) dMaxSample nm_example = Some (written, nm')"
    and l: "length written = 3"
    and i: "\<forall>j<3. unat (written ! j) = (unat (m_nBlockCurrent nm_example) + j) mod unat (m_nBlockCount nm_example)"
    and c: "unat (m_nBlockCurrent nm') = (unat (m_nBlockCurrent nm_example) + 3) mod unat (m_nBlockCount nm_example)"
    by blast
  from i have "unat (written ! 0) = 0" "unat (written ! 1) = 1" "unat (written ! 2) = 0"
    by (simp_all add: nm_example_fields)
  moreover from c have "unat (m_nBlockCurrent nm') = 1" by (simp add: nm_example_fields)
  ultimately have "\<exists>written nm'. MainThread_blocks id 3 (1 / 4) dMaxSample nm_example = Some (written, nm') \<and>
      length written = 3 \<and> unat (written ! 0) = 0 \<and> unat (written ! 1) = 1 \<and>
      unat (written ! 2) = 0 \<and> unat (m_nBlockCurrent nm') = 1"
    using r l by blast
  with one nm_example_ok show ?thesis by blast
qed

text \<open>
  Claim C6. For an engine with a sample rate other than zero: the thread's first statement
  leaves the clock at \<open>0\<close>; in the arithmetic of the reals (\<open>fl = id\<close>) every sample adds
  exactly \<open>1 / sample-rate\<close> to it, so it never decreases, and after \<open>M\<close> blocks of \<open>N\<close>
  samples at rate \<open>R\<close> it is \<open>M * N / R\<close>, where the equation is exact. Under any rounding
  \<open>fl\<close> the clock after those blocks is \<^const>\<open>clock_after\<close> at the rounded step, which
  lemmas \<open>clock_after_mono\<close>, \<open>clock_after_error\<close> and \<open>clock_after_error_rate\<close> keep
  monotone and within the rounding's tolerance of \<open>M * N / R\<close>.
\<close>

theorem global_clock_advance:
  assumes "engine_ok nm" and "m_nSampleRate nm \<noteq> 0"
  shows "MainThread_generate fl 0 nm = Some ([], nm\<lparr>m_dGlobalTime := 0\<rparr>) \<and>
     (\<forall>b n x x'. MainThread_for_body id (1 / real (unat (m_nSampleRate nm))) dMaxSample b n x = Some x' \<longrightarrow>
        m_dGlobalTime x' = m_dGlobalTime x + 1 / real (unat (m_nSampleRate nm)) \<and>
        m_dGlobalTime x \<le> m_dGlobalTime x') \<and>
     (\<exists>written nm'. MainThread_generate id M nm = Some (written, nm') \<and>
        m_dGlobalTime nm' = real (M * unat (m_nBlockSamples nm)) / real (unat (m_nSampleRate nm))) \<and>
     (\<exists>written nm'. MainThread_generate fl M nm = Some (written, nm') \<and>
        m_dGlobalTime nm' =
          clock_after fl (fl (1 / real (unat (m_nSampleRate nm)))) (M * unat (m_nBlockSamples nm)))"
proof (intro conjI allI impI)
  show "MainThread_generate fl 0 nm = Some ([], nm\<lparr>m_dGlobalTime := 0\<rparr>)"
    using assms(2) by (simp add: MainThread_generate_def)
next
  fix b n x x'
  assume "MainThread_for_body id (1 / real (unat (m_nSampleRate nm))) dMaxSample b n x = Some x'"
  then show "m_dGlobalTime x' = m_dGlobalTime x + 1 / real (unat (m_nSampleRate nm))"
    by (auto simp: MainThread_for_body_def Let_def split: if_splits)
  moreover have "0 \<le> 1 / real (unat (m_nSampleRate nm))"
    by (simp only: zero_le_divide_1_iff of_nat_0_le_iff)
  ultimately show "m_dGlobalTime x \<le> m_dGlobalTime x'" by linarith
next
  obtain written nm' where r: "MainThread_generate id M nm = Some (written, nm')"
    and t: "m_dGlobalTime nm' =
       clock_after id (id (1 / real (unat (m_nSampleRate nm)))) (M * unat (m_nBlockSamples nm))"
    using MainThread_generate_clock [OF assms, of id M] by blast
  from t have "m_dGlobalTime nm' = real (M * unat (m_nBlockSamples nm)) / real (unat (m_nSampleRate nm))"
    by (simp add: clock_after_exact)
  with r show "\<exists>written nm'. MainThread_generate id M nm = Some (written, nm') \<and>
        m_dGlobalTime nm' = real (M * unat (m_nBlockSamples nm)) / real (unat (m_nSampleRate nm))"
    by blast
next
  show "\<exists>written nm'. MainThread_generate fl M nm = Some (written, nm') \<and>
        m_dGlobalTime nm' =
          clock_after fl (fl (1 / real (unat (m_nSampleRate nm)))) (M * unat (m_nBlockSamples nm))"
    using assms by (rule MainThread_generate_clock)
qed

theorem global_clock_advance_witness:
  "engine_ok nm_example \<and> m_nSampleRate nm_example \<noteq> 0 \<and>
   MainThread_generate id 0 nm_example = Some ([], nm_example\<lparr>m_dGlobalTime := 0\<rparr>) \<and>
   (\<exists>written nm'. MainThread_generate id 3 nm_example = Some (written, nm') \<and>
      m_dGlobalTime nm' = 3 / 2)"
  using global_clock_advance [OF nm_example_ok, of id 3] nm_example_ok
  by (simp add: nm_example_fields)

section \<open>Properties of the engine\<close>

subsection \<open>Ring arithmetic\<close>

lemma ring_shift_append:
  assumes "Suc q \<le> (N::nat)"
  shows "(Suc c mod N + N - Suc q + j) mod N = (c + N - q + j) mod N"
proof -
  define m where "m = N - Suc q"
  have N: "N = Suc q + m" using assms by (simp add: m_def)
  have l: "Suc c mod N + N - Suc q + j = Suc c mod N + (m + j)" by (simp add: N)
  have r: "c + N - q + j = Suc c + (m + j)" by (simp add: N)
  have "(Suc c mod N + (m + j)) mod N = (Suc c + (m + j)) mod N"
    by (rule mod_add_left_eq)
  then show ?thesis by (simp only: l r)
qed

lemma ring_last:
  assumes "c < N" and "q \<le> (N::nat)"
  shows "(c + N - q + q) mod N = c"
proof -
  have "c + N - q + q = c + N" using assms(2) by simp
  then show ?thesis using assms(1) by simp
qed


lemma unat_pred: "(w::u32) \<noteq> 0 \<Longrightarrow> unat (w - 1) = unat w - 1"
  by (simp add: unat_minus_one)

lemma unat_succ_bounded:
  assumes "unat (w::u32) < unat (N::u32)"
  shows "unat (w + 1) = unat w + 1"
proof -
  have "unat N < 2 ^ 32" using unsigned_less [of N] by simp
  with assms have "unat w + unat (1::u32) < 2 ^ LENGTH(32)" by simp
  then have "unat (w + 1) = unat w + unat (1::u32)" by (simp only: unat_add_lem)
  then show ?thesis by simp
qed

subsection \<open>What a pass of the loop does to the engine\<close>

text \<open>
  From \<open>AtDecrement\<close>, with the current index inside the ring, the thread's step is a
  whole pass: the counter goes down by one whatever it was, the index moves on, and the
  header is queued if the open device takes it.
\<close>

lemma thread_step_produce:
  assumes ok: "engine_ok (obj e)" and at: "pc e = AtDecrement"
  shows "\<exists>nm'. thread_step fl accepted e =
            Some (e\<lparr>obj := nm',
                    queue := (if device e = Opened \<and> accepted
                              then queue e @ [m_nBlockCurrent (obj e)] else queue e),
                    pc := AtWhile\<rparr>) \<and>
          engine_ok nm' \<and>
          unat (m_nBlockCurrent nm') =
            (unat (m_nBlockCurrent (obj e)) + 1) mod unat (m_nBlockCount (obj e)) \<and>
          m_nBlockFree nm' = m_nBlockFree (obj e) - 1 \<and>
          m_nBlockCount nm' = m_nBlockCount (obj e) \<and>
          m_nBlockSamples nm' = m_nBlockSamples (obj e) \<and>
          m_bReady nm' = m_bReady (obj e)"
proof -
  let ?nm = "obj e"
  obtain nm' where b: "MainThread_block fl (fl (1 / real (unat (m_nSampleRate ?nm)))) dMaxSample ?nm =
        Some (m_nBlockCurrent ?nm, nm')"
    and rest: "engine_ok nm'"
      "unat (m_nBlockCurrent nm') = (unat (m_nBlockCurrent ?nm) + 1) mod unat (m_nBlockCount ?nm)"
      "m_nBlockFree nm' = m_nBlockFree ?nm - 1"
      "m_nBlockCount nm' = m_nBlockCount ?nm"
      "m_nBlockSamples nm' = m_nBlockSamples ?nm"
      "m_bReady nm' = m_bReady ?nm"
    using MainThread_block_spec [OF ok, of fl "fl (1 / real (unat (m_nSampleRate ?nm)))" dMaxSample]
    by blast
  have "thread_step fl accepted e =
            Some (e\<lparr>obj := nm',
                    queue := (if device e = Opened \<and> accepted
                              then queue e @ [m_nBlockCurrent ?nm] else queue e),
                    pc := AtWhile\<rparr>)"
    using at b by (simp add: thread_step_def)
  with rest show ?thesis by blast
qed

subsection \<open>Every event of an undisturbed run keeps the accounting of the pool\<close>

lemma pool_inv_start:
  assumes "nBlocks \<noteq> 0" and "unat nBlocks * unat nBlockSamples < 2 ^ 32"
  shows "\<exists>e0. engine_start Opened nSampleRate nChannels nBlocks nBlockSamples nm = Some e0 \<and>
           pool_inv e0 \<and> device e0 = Opened \<and> pc e0 = AtStart \<and> queue e0 = [] \<and>
           m_nBlockFree (obj e0) = nBlocks \<and> m_nBlockCount (obj e0) = nBlocks \<and>
           m_nBlockSamples (obj e0) = nBlockSamples"
proof -
  let ?c = "Create Opened nSampleRate nChannels nBlocks nBlockSamples nm"
  have c: "fst ?c" "engine_ok (snd ?c)" "m_nBlockFree (snd ?c) = nBlocks"
    using Create_engine_ok [OF _ assms, of Opened nSampleRate nChannels nm] by simp_all
  have f: "m_nBlockCount (snd ?c) = nBlocks" "m_nBlockSamples (snd ?c) = nBlockSamples"
    by (simp_all add: Create_def Let_def)
  let ?e = "\<lparr>obj = snd ?c, pc = AtStart, queue = [], device = Opened\<rparr>"
  have "engine_start Opened nSampleRate nChannels nBlocks nBlockSamples nm = Some ?e"
    using c(1) by (cases ?c) (simp add: engine_start_def)
  moreover have "pool_inv ?e" using c(2,3) f by (simp add: pool_inv_def)
  ultimately show ?thesis using c(3) f by simp
qed


lemma pool_inv_produce:
  assumes inv: "pool_inv e" and dev: "device e = Opened" and at: "pc e = AtDecrement"
  shows "\<exists>nm'. thread_step fl True e =
            Some (e\<lparr>obj := nm', queue := queue e @ [m_nBlockCurrent (obj e)], pc := AtWhile\<rparr>) \<and>
          pool_inv (e\<lparr>obj := nm', queue := queue e @ [m_nBlockCurrent (obj e)], pc := AtWhile\<rparr>) \<and>
          m_nBlockFree nm' = m_nBlockFree (obj e) - 1 \<and>
          m_nBlockCount nm' = m_nBlockCount (obj e) \<and>
          m_nBlockSamples nm' = m_nBlockSamples (obj e) \<and>
          m_bReady nm' = m_bReady (obj e)"
proof -
  let ?nm = "obj e"
  let ?c = "unat (m_nBlockCurrent ?nm)" and ?N = "unat (m_nBlockCount ?nm)" and ?q = "length (queue e)"
  from inv have ok: "engine_ok ?nm"
    and sum: "unat (m_nBlockFree ?nm) + ?q = ?N"
    and ring: "\<And>j. j < ?q \<Longrightarrow> unat (queue e ! j) = (?c + ?N - ?q + j) mod ?N"
    by (simp_all add: pool_inv_def)
  from inv at have free: "m_nBlockFree ?nm \<noteq> 0" by (simp add: pool_inv_def)
  then have fpos: "0 < unat (m_nBlockFree ?nm)" by (simp add: unat_gt_0)
  from ok have cN: "?c < ?N" by (simp add: engine_ok_def word_less_nat_alt)
  let ?e' = "\<lambda>nm'. e\<lparr>obj := nm', queue := queue e @ [m_nBlockCurrent ?nm], pc := AtWhile\<rparr>"
  obtain nm' where step: "thread_step fl True e = Some (?e' nm')"
    and ok': "engine_ok nm'"
    and c': "unat (m_nBlockCurrent nm') = (?c + 1) mod ?N"
    and f': "m_nBlockFree nm' = m_nBlockFree ?nm - 1"
    and N': "m_nBlockCount nm' = m_nBlockCount ?nm"
    and S': "m_nBlockSamples nm' = m_nBlockSamples ?nm"
    and R': "m_bReady nm' = m_bReady ?nm"
    using thread_step_produce [OF ok at, of fl True] dev by auto
  have uf: "unat (m_nBlockFree nm') = unat (m_nBlockFree ?nm) - 1"
    using free by (simp add: f' unat_pred)
  have qN: "Suc ?q \<le> ?N" using sum fpos by simp
  have sum': "unat (m_nBlockFree nm') + length (queue e @ [m_nBlockCurrent ?nm]) = ?N"
    using sum fpos uf by simp
  have ring': "unat ((queue e @ [m_nBlockCurrent ?nm]) ! j) =
      (unat (m_nBlockCurrent nm') + ?N - Suc ?q + j) mod ?N" if "j < Suc ?q" for j
  proof (cases "j < ?q")
    case True
    then have "unat ((queue e @ [m_nBlockCurrent ?nm]) ! j) = (?c + ?N - ?q + j) mod ?N"
      using ring [of j] by (simp add: nth_append)
    also have "\<dots> = (Suc ?c mod ?N + ?N - Suc ?q + j) mod ?N"
      using qN by (simp only: ring_shift_append)
    finally show ?thesis by (simp add: c')
  next
    case False
    with that have j: "j = ?q" by simp
    have "(?c + ?N - ?q + ?q) mod ?N = ?c" using cN qN by (intro ring_last) simp_all
    then have "(Suc ?c mod ?N + ?N - Suc ?q + ?q) mod ?N = ?c"
      using qN by (simp only: ring_shift_append)
    then show ?thesis using j by (simp add: c')
  qed
  have "pool_inv (?e' nm')"
    unfolding pool_inv_def using ok' sum' ring' by (simp add: N')
  with step f' N' S' R' show ?thesis by blast
qed

lemma pool_inv_pc_update:
  assumes "pool_inv e" and "p = AtDecrement \<longrightarrow> m_nBlockFree (obj e) \<noteq> 0"
  shows "pool_inv (e\<lparr>pc := p\<rparr>)"
  using assms by (simp add: pool_inv_def)

lemma pool_inv_thread_step:
  assumes inv: "pool_inv e" and dev: "device e = Opened"
    and reg: "\<not> stray (ThreadStep accepted) e" and step: "thread_step fl accepted e = Some e'"
  shows "pool_inv e' \<and> device e' = Opened \<and>
         m_nBlockCount (obj e') = m_nBlockCount (obj e) \<and>
         m_nBlockSamples (obj e') = m_nBlockSamples (obj e)"
proof (cases "pc e")
  case AtStart
  show ?thesis
  proof (cases "m_nSampleRate (obj e) = 0")
    case True
    with AtStart step have "e' = e\<lparr>pc := Faulted\<rparr>" by (simp add: thread_step_def)
    then show ?thesis using dev pool_inv_pc_update [OF inv, of Faulted] by simp
  next
    case False
    with AtStart step have e': "e' = e\<lparr>obj := (obj e)\<lparr>m_dGlobalTime := 0\<rparr>, pc := AtWhile\<rparr>"
      by (simp add: thread_step_def)
    have "pool_inv e'" using inv unfolding e' pool_inv_def engine_ok_def by simp
    then show ?thesis using dev by (simp add: e')
  qed
next
  case AtWhile
  with step have "e' = e\<lparr>pc := (if m_bReady (obj e) then AtIf else Exited)\<rparr>"
    by (simp add: thread_step_def)
  then show ?thesis
    using dev pool_inv_pc_update [OF inv, of "if m_bReady (obj e) then AtIf else Exited"] by simp
next
  case AtIf
  with step have "e' = e\<lparr>pc := (if m_nBlockFree (obj e) = 0 then AtWait else AtDecrement)\<rparr>"
    by (simp add: thread_step_def)
  then show ?thesis
    using dev pool_inv_pc_update [OF inv, of "if m_nBlockFree (obj e) = 0 then AtWait else AtDecrement"]
    by simp
next
  case AtWait
  with step have "e' = e\<lparr>pc := Waiting\<rparr>" by (simp add: thread_step_def)
  then show ?thesis using dev pool_inv_pc_update [OF inv, of Waiting] by simp
next
  case Waiting
  with step show ?thesis by (simp add: thread_step_def)
next
  case AtDecrement
  with reg have acc: "accepted" by (simp add: stray_def)
  from pool_inv_produce [OF inv dev AtDecrement, of fl] obtain nm' where
    s: "thread_step fl True e = Some (e\<lparr>obj := nm', queue := queue e @ [m_nBlockCurrent (obj e)], pc := AtWhile\<rparr>)"
    and i: "pool_inv (e\<lparr>obj := nm', queue := queue e @ [m_nBlockCurrent (obj e)], pc := AtWhile\<rparr>)"
    and n: "m_nBlockCount nm' = m_nBlockCount (obj e)"
    and m: "m_nBlockSamples nm' = m_nBlockSamples (obj e)"
    by blast
  from s step acc have "e' = e\<lparr>obj := nm', queue := queue e @ [m_nBlockCurrent (obj e)], pc := AtWhile\<rparr>"
    by simp
  with i n m dev show ?thesis by simp
next
  case Exited
  with step show ?thesis by (simp add: thread_step_def)
next
  case Faulted
  with step show ?thesis by (simp add: thread_step_def)
qed

lemma pool_inv_sink_done:
  assumes inv: "pool_inv e" and step: "sink_done e = Some e'"
  shows "pool_inv e' \<and> device e' = device e \<and>
         m_nBlockFree (obj e') = m_nBlockFree (obj e) + 1 \<and>
         queue e' = tl (queue e) \<and> queue e \<noteq> [] \<and>
         m_nBlockCount (obj e') = m_nBlockCount (obj e) \<and>
         m_nBlockSamples (obj e') = m_nBlockSamples (obj e)"
proof -
  let ?nm = "obj e"
  let ?c = "unat (m_nBlockCurrent ?nm)" and ?N = "unat (m_nBlockCount ?nm)" and ?q = "length (queue e)"
  from step obtain i rest where q: "queue e = i # rest"
    by (cases "queue e") (simp_all add: sink_done_def)
  let ?nm' = "?nm\<lparr>m_nBlockFree := m_nBlockFree ?nm + 1\<rparr>"
  from step q have e': "e' = e\<lparr>obj := ?nm', queue := rest,
                  pc := (if pc e = Waiting then AtDecrement else pc e)\<rparr>"
    by (simp add: sink_done_def waveOutProc_def)
  from inv have ok: "engine_ok ?nm"
    and sum: "unat (m_nBlockFree ?nm) + ?q = ?N"
    and ring: "\<And>j. j < ?q \<Longrightarrow> unat (queue e ! j) = (?c + ?N - ?q + j) mod ?N"
    by (simp_all add: pool_inv_def)
  have "unat (m_nBlockFree ?nm) < ?N" using sum q by simp
  then have uf: "unat (m_nBlockFree ?nm + 1) = unat (m_nBlockFree ?nm) + 1"
    by (rule unat_succ_bounded)
  then have nz: "m_nBlockFree ?nm + 1 \<noteq> 0" by (metis Suc_eq_plus1 nat.distinct(1) unat_0)
  have ok': "engine_ok ?nm'" using ok by (simp add: engine_ok_def)
  have sum': "unat (m_nBlockFree ?nm') + length rest = ?N" using sum q uf by simp
  have ring': "unat (rest ! j) = (?c + ?N - length rest + j) mod ?N" if "j < length rest" for j
  proof -
    have "unat (rest ! j) = unat (queue e ! Suc j)" by (simp add: q)
    also have "\<dots> = (?c + ?N - ?q + Suc j) mod ?N" using that q by (intro ring) simp
    also have "?c + ?N - ?q + Suc j = ?c + ?N - length rest + j" using sum q by simp
    finally show ?thesis .
  qed
  have "pool_inv e'"
    unfolding pool_inv_def e' using ok' sum' ring' nz by simp
  then show ?thesis using q by (simp add: e')
qed

lemma pool_inv_wake_up:
  assumes inv: "pool_inv e" and reg: "\<not> stray Wake e"
  shows "pool_inv (wake_up e)"
proof -
  have "(if pc e = Waiting then AtDecrement else pc e) = AtDecrement \<longrightarrow> m_nBlockFree (obj e) \<noteq> 0"
    using inv reg by (auto simp: stray_def pool_inv_def)
  with inv show ?thesis unfolding wake_up_def by (rule pool_inv_pc_update)
qed

lemma pool_inv_engine_step:
  assumes "pool_inv e" and "device e = Opened" and "\<not> stray ev e"
    and "engine_step fl ev e = Some e'"
  shows "pool_inv e' \<and> device e' = Opened \<and>
         m_nBlockCount (obj e') = m_nBlockCount (obj e) \<and>
         m_nBlockSamples (obj e') = m_nBlockSamples (obj e)"
proof (cases ev)
  case (ThreadStep accepted)
  with assms(4) have "thread_step fl accepted e = Some e'" by (simp add: engine_step_def)
  with assms(1,2) assms(3) [unfolded ThreadStep] show ?thesis by (rule pool_inv_thread_step)
next
  case Done
  with assms(4) have "sink_done e = Some e'" by (simp add: engine_step_def)
  from pool_inv_sink_done [OF assms(1) this] assms(2) show ?thesis by simp
next
  case Wake
  with assms(4) have e': "e' = wake_up e" by (simp add: engine_step_def)
  have "pool_inv e'" unfolding e' using assms(1) assms(3) [unfolded Wake] by (rule pool_inv_wake_up)
  then show ?thesis using assms(2) by (simp add: e' wake_up_def)
next
  case StopFlag
  with assms(4) have e': "e' = e\<lparr>obj := (obj e)\<lparr>m_bReady := False\<rparr>\<rparr>"
    by (simp add: engine_step_def Stop_flag_def)
  have "pool_inv e'" using assms(1) unfolding e' pool_inv_def engine_ok_def by simp
  then show ?thesis using assms(2) by (simp add: e')
next
  case (SetUser func)
  with assms(4) have e': "e' = e\<lparr>obj := (obj e)\<lparr>m_userFunction := Some func\<rparr>\<rparr>"
    by (simp add: engine_step_def SetUserFunction_def)
  have "pool_inv e'" using assms(1) unfolding e' pool_inv_def engine_ok_def by simp
  then show ?thesis using assms(2) by (simp add: e')
qed

lemma pool_inv_engine_run:
  assumes "pool_inv e" and "device e = Opened" and "undisturbed fl evs e"
    and "engine_run fl evs e = Some e'"
  shows "pool_inv e' \<and> device e' = Opened \<and>
         m_nBlockCount (obj e') = m_nBlockCount (obj e) \<and>
         m_nBlockSamples (obj e') = m_nBlockSamples (obj e)"
  using assms
proof (induction evs arbitrary: e)
  case Nil
  then show ?case by simp
next
  case (Cons ev evs)
  from Cons.prems(4) obtain e1 where s: "engine_step fl ev e = Some e1"
    and r: "engine_run fl evs e1 = Some e'"
    by (cases "engine_step fl ev e") simp_all
  from Cons.prems(3) s have reg: "\<not> stray ev e" and u1: "undisturbed fl evs e1" by simp_all
  from pool_inv_engine_step [OF Cons.prems(1,2) reg s]
  have i1: "pool_inv e1" and d1: "device e1 = Opened"
    and n1: "m_nBlockCount (obj e1) = m_nBlockCount (obj e)"
    and s1: "m_nBlockSamples (obj e1) = m_nBlockSamples (obj e)" by simp_all
  from Cons.IH [OF i1 d1 u1 r] n1 s1 show ?case by simp
qed






text \<open>
  The accounting is what keeps the decrement away from zero: \<^verbatim>\<open>m_nBlockFree--\<close> itself is
  not guarded, and a pass entered with a free count of zero leaves the counter at
  \<open>2 ^ 32 - 1\<close>.
\<close>

lemma MainThread_block_at_zero:
  assumes "engine_ok nm" and "m_nBlockFree nm = 0"
  shows "\<exists>nm'. MainThread_block fl dTimeStep dMax nm = Some (m_nBlockCurrent nm, nm') \<and>
           m_nBlockFree nm' = 0xFFFFFFFF"
proof -
  obtain nm' where "MainThread_block fl dTimeStep dMax nm = Some (m_nBlockCurrent nm, nm')"
    and "m_nBlockFree nm' = m_nBlockFree nm - 1"
    using MainThread_block_spec [OF assms(1), of fl dTimeStep dMax] by blast
  then show ?thesis using assms(2) by auto
qed

subsection \<open>Concrete runs\<close>

lemma replicate_update_same: "(replicate n x)[i := x] = replicate n x"
  by (induction n arbitrary: i) (simp_all split: nat.split)

lemmas engine_eval =
  engine_step_def thread_step_def sink_done_def wake_up_def Stop_flag_def waveOutProc_def
  WOM_DONE_def Create_def Let_def nm_raw_def MainThread_block_def MainThread_for.simps
  MainThread_for_body_def MainThread_new_sample_def UserProcess_def clip_def dMaxSample_eq
  double_to_T_def trunc_def replicate_update_same

lemma e_start_eq: "engine_start Opened 4 1 2 2 nm_raw = Some e_start"
  by (simp add: engine_start_def e_start_def Create_def Let_def)


lemma e_start_run: "engine_run id fill_pool e_start = Some e_blocked"
  by (simp add: fill_pool_def e_start_def e_blocked_def engine_eval)

lemma e_start_undisturbed: "undisturbed id fill_pool e_start"
  by (simp add: fill_pool_def e_start_def stray_def engine_eval)

lemma e_blocked_stop:
  "engine_run id [Done, ThreadStep True, ThreadStep True] (Stop_flag e_blocked) = Some e_exited"
  by (simp add: e_blocked_def e_exited_def engine_eval)

lemma e_blocked_drained:
  "engine_run id [Done, Done, ThreadStep True, ThreadStep True] (Stop_flag e_blocked) = Some e_drained"
  by (simp add: e_blocked_def e_drained_def engine_eval)



lemma e_blocked_inv: "pool_inv e_blocked \<and> device e_blocked = Opened"
proof -
  obtain e0 where "engine_start Opened 4 1 2 2 nm_raw = Some e0" and "pool_inv e0" and "device e0 = Opened"
    using pool_inv_start [of 2 2 4 1 nm_raw] by auto
  then have "pool_inv e_start" "device e_start = Opened" by (simp_all add: e_start_eq)
  from pool_inv_engine_run [OF this e_start_undisturbed e_start_run] show ?thesis by simp
qed



subsection \<open>The claim about the pool\<close>




subsection \<open>Stop while the thread waits\<close>

text \<open>
  With nothing queued at the device and no other wake-up, a waiting thread waits for
  ever, whatever happens next; this is where an engine made for a device name that is not
  listed ends up, and \<^verbatim>\<open>Stop\<close> then returns only if a wake-up without a completion
  happens to come.
\<close>

lemma blocked_forever_without_completion:
  assumes "pc e = Waiting" and "queue e = []" and "wake_ups evs = 0"
    and "engine_run fl evs e = Some e'"
  shows "pc e' = Waiting \<and> queue e' = []"
  using assms
proof (induction evs arbitrary: e)
  case Nil
  then show ?case by simp
next
  case (Cons ev evs)
  from Cons.prems(4) obtain e1 where s: "engine_step fl ev e = Some e1"
    and r: "engine_run fl evs e1 = Some e'"
    by (cases "engine_step fl ev e") simp_all
  from Cons.prems(3) have nw: "ev \<noteq> Wake" and w: "wake_ups evs = 0"
    by (auto simp: wake_ups_def split: if_splits)
  have "pc e1 = Waiting \<and> queue e1 = []"
    using s nw Cons.prems(1,2)
    by (cases ev) (auto simp: engine_step_def thread_step_def sink_done_def Stop_flag_def)
  with Cons.IH [OF _ _ w r] show ?case by simp
qed

lemma unlisted_device_stop_never_returns:
  assumes "wake_ups evs = 0"
    and "engine_run fl (StopFlag # evs) e_unlisted_blocked = Some e'"
  shows "\<not> Stop_returns e'"
proof -
  from assms(2) have r: "engine_run fl evs (Stop_flag e_unlisted_blocked) = Some e'"
    by (simp add: engine_step_def)
  have "pc (Stop_flag e_unlisted_blocked) = Waiting" "queue (Stop_flag e_unlisted_blocked) = []"
    by (simp_all add: Stop_flag_def e_unlisted_blocked_def)
  from blocked_forever_without_completion [OF this assms(1) r] show ?thesis
    by (simp add: Stop_returns_def)
qed

text \<open>
  The counts of a run add up over its events, and an event that is not a step of the
  thread changes little: it leaves the ring and the flag alone, takes at most one header
  off the queue, and moves the thread only out of its wait.
\<close>

lemma event_counts_Cons:
  "completions (ev # evs) = completions [ev] + completions evs"
  "thread_steps (ev # evs) = thread_steps [ev] + thread_steps evs"
  "wake_ups (ev # evs) = wake_ups [ev] + wake_ups evs"
  by (simp_all add: completions_def thread_steps_def wake_ups_def)

lemma event_counts_Nil: "completions [] = 0" "thread_steps [] = 0" "wake_ups [] = 0"
  by (simp_all add: completions_def thread_steps_def wake_ups_def)

lemma thread_steps_single:
  "thread_steps [ev] = (if \<exists>accepted. ev = ThreadStep accepted then 1 else 0)"
  by (cases ev) (simp_all add: thread_steps_def)

lemma other_event_frame:
  assumes "engine_step fl ev e = Some e1" and "thread_steps [ev] = 0"
  shows "m_nBlockCurrent (obj e1) = m_nBlockCurrent (obj e) \<and>
         m_nBlockCount (obj e1) = m_nBlockCount (obj e) \<and>
         (engine_ok (obj e) \<longrightarrow> engine_ok (obj e1)) \<and>
         device e1 = device e \<and>
         (\<not> m_bReady (obj e) \<longrightarrow> \<not> m_bReady (obj e1)) \<and>
         length (queue e1) + completions [ev] = length (queue e) \<and>
         (completions [ev] = 0 \<longrightarrow> queue e1 = queue e) \<and>
         pc e1 = (if pc e = Waiting \<and> 0 < completions [ev] + wake_ups [ev]
                  then AtDecrement else pc e)"
proof (cases ev)
  case (ThreadStep accepted)
  with assms(2) show ?thesis by (simp add: thread_steps_def)
next
  case Done
  with assms(1) show ?thesis
    by (cases "queue e")
      (auto simp: engine_step_def sink_done_def waveOutProc_def engine_ok_def
        completions_def wake_ups_def)
next
  case Wake
  with assms(1) show ?thesis
    by (auto simp: engine_step_def wake_up_def completions_def wake_ups_def)
next
  case StopFlag
  with assms(1) show ?thesis
    by (auto simp: engine_step_def Stop_flag_def engine_ok_def completions_def wake_ups_def)
next
  case (SetUser func)
  with assms(1) show ?thesis
    by (auto simp: engine_step_def SetUserFunction_def engine_ok_def completions_def wake_ups_def)
qed

text \<open>
  The thread after \<^verbatim>\<open>Stop\<close>, place by place. Once it has exited it takes no step. Before
  the loop test with the flag cleared, its next step is the exit. Released from the wait,
  it makes one pass and comes to the loop test. In the wait, it is released by the first
  completion or other wake-up, and by nothing else.
\<close>

lemma run_after_exit:
  assumes "pc e = Exited" and "engine_run fl evs e = Some e'"
  shows "pc e' = Exited \<and> thread_steps evs = 0 \<and>
         length (queue e') + completions evs = length (queue e) \<and>
         m_nBlockCurrent (obj e') = m_nBlockCurrent (obj e)"
  using assms
proof (induction evs arbitrary: e)
  case Nil
  then show ?case by (simp add: event_counts_Nil)
next
  case (Cons ev evs)
  from Cons.prems(2) obtain e1 where s: "engine_step fl ev e = Some e1"
    and r: "engine_run fl evs e1 = Some e'"
    by (cases "engine_step fl ev e") simp_all
  have t0: "thread_steps [ev] = 0"
  proof (rule ccontr)
    assume "thread_steps [ev] \<noteq> 0"
    then obtain accepted where "ev = ThreadStep accepted"
      by (auto simp: thread_steps_single split: if_splits)
    with s Cons.prems(1) show False by (simp add: engine_step_def thread_step_def)
  qed
  from other_event_frame [OF s t0] Cons.prems(1)
  have p1: "pc e1 = Exited" and c1: "m_nBlockCurrent (obj e1) = m_nBlockCurrent (obj e)"
    and q1: "length (queue e1) + completions [ev] = length (queue e)"
    by simp_all
  from Cons.IH [OF p1 r] have "pc e' = Exited" "thread_steps evs = 0"
    "length (queue e') + completions evs = length (queue e1)"
    "m_nBlockCurrent (obj e') = m_nBlockCurrent (obj e1)"
    by simp_all
  with t0 c1 q1 show ?case
    by (simp add: event_counts_Cons [of ev evs])
qed

lemma run_after_pass:
  assumes "pc e = AtWhile" and "\<not> m_bReady (obj e)" and "engine_run fl evs e = Some e'"
  shows "thread_steps evs \<le> 1 \<and>
         pc e' = (if thread_steps evs = 0 then AtWhile else Exited) \<and>
         length (queue e') + completions evs = length (queue e) \<and>
         m_nBlockCurrent (obj e') = m_nBlockCurrent (obj e)"
  using assms
proof (induction evs arbitrary: e)
  case Nil
  then show ?case by (simp add: event_counts_Nil)
next
  case (Cons ev evs)
  from Cons.prems(3) obtain e1 where s: "engine_step fl ev e = Some e1"
    and r: "engine_run fl evs e1 = Some e'"
    by (cases "engine_step fl ev e") simp_all
  show ?case
  proof (cases "thread_steps [ev] = 0")
    case True
    from other_event_frame [OF s True] Cons.prems(1,2)
    have p1: "pc e1 = AtWhile" and r1: "\<not> m_bReady (obj e1)"
      and c1: "m_nBlockCurrent (obj e1) = m_nBlockCurrent (obj e)"
      and q1: "length (queue e1) + completions [ev] = length (queue e)"
      by simp_all
    from Cons.IH [OF p1 r1 r] have "thread_steps evs \<le> 1"
      "pc e' = (if thread_steps evs = 0 then AtWhile else Exited)"
      "length (queue e') + completions evs = length (queue e1)"
      "m_nBlockCurrent (obj e') = m_nBlockCurrent (obj e1)"
      by simp_all
    with True c1 q1 show ?thesis
      by (simp add: event_counts_Cons [of ev evs])
  next
    case False
    then obtain accepted where ev: "ev = ThreadStep accepted" and t1: "thread_steps [ev] = 1"
      by (auto simp: thread_steps_single split: if_splits)
    have d0: "completions [ev] = 0" by (simp add: ev completions_def)
    from s ev Cons.prems(1,2) have e1: "e1 = e\<lparr>pc := Exited\<rparr>"
      by (simp add: engine_step_def thread_step_def)
    then have p1: "pc e1 = Exited" by simp
    from run_after_exit [OF p1 r] have "pc e' = Exited" "thread_steps evs = 0"
      "length (queue e') + completions evs = length (queue e1)"
      "m_nBlockCurrent (obj e') = m_nBlockCurrent (obj e1)"
      by simp_all
    with t1 d0 e1 show ?thesis
      by (simp add: event_counts_Cons [of ev evs])
  qed
qed

lemma run_after_wake:
  assumes "pc e = AtDecrement" and "\<not> m_bReady (obj e)" and "engine_ok (obj e)"
    and "device e = Opened" and "ThreadStep False \<notin> set evs"
    and "engine_run fl evs e = Some e'"
  shows "thread_steps evs \<le> 2 \<and>
         pc e' = (if thread_steps evs = 0 then AtDecrement
                  else if thread_steps evs = 1 then AtWhile else Exited) \<and>
         (thread_steps evs = 0 \<longrightarrow>
            m_nBlockCurrent (obj e') = m_nBlockCurrent (obj e) \<and>
            length (queue e') + completions evs = length (queue e)) \<and>
         (0 < thread_steps evs \<longrightarrow>
            unat (m_nBlockCurrent (obj e')) =
              (unat (m_nBlockCurrent (obj e)) + 1) mod unat (m_nBlockCount (obj e)) \<and>
            length (queue e') + completions evs = length (queue e) + 1)"
  using assms
proof (induction evs arbitrary: e)
  case Nil
  then show ?case by (simp add: event_counts_Nil)
next
  case (Cons ev evs)
  from Cons.prems(6) obtain e1 where s: "engine_step fl ev e = Some e1"
    and r: "engine_run fl evs e1 = Some e'"
    by (cases "engine_step fl ev e") simp_all
  from Cons.prems(5) have acc: "ev \<noteq> ThreadStep False" and accs: "ThreadStep False \<notin> set evs"
    by auto
  show ?case
  proof (cases "thread_steps [ev] = 0")
    case True
    from other_event_frame [OF s True] Cons.prems(1,2,3,4)
    have p1: "pc e1 = AtDecrement" and r1: "\<not> m_bReady (obj e1)" and ok1: "engine_ok (obj e1)"
      and d1: "device e1 = Opened"
      and c1: "m_nBlockCurrent (obj e1) = m_nBlockCurrent (obj e)"
      and n1: "m_nBlockCount (obj e1) = m_nBlockCount (obj e)"
      and q1: "length (queue e1) + completions [ev] = length (queue e)"
      by simp_all
    from Cons.IH [OF p1 r1 ok1 d1 accs r]
    have "thread_steps evs \<le> 2"
      "pc e' = (if thread_steps evs = 0 then AtDecrement
                else if thread_steps evs = 1 then AtWhile else Exited)"
      "thread_steps evs = 0 \<longrightarrow>
            m_nBlockCurrent (obj e') = m_nBlockCurrent (obj e1) \<and>
            length (queue e') + completions evs = length (queue e1)"
      "0 < thread_steps evs \<longrightarrow>
            unat (m_nBlockCurrent (obj e')) =
              (unat (m_nBlockCurrent (obj e1)) + 1) mod unat (m_nBlockCount (obj e1)) \<and>
            length (queue e') + completions evs = length (queue e1) + 1"
      by simp_all
    with True c1 n1 q1 show ?thesis
      by (auto simp: event_counts_Cons [of ev evs])
  next
    case False
    then obtain accepted where "ev = ThreadStep accepted" and t1: "thread_steps [ev] = 1"
      by (auto simp: thread_steps_single split: if_splits)
    with acc have ev: "ev = ThreadStep True" by (cases accepted) simp_all
    have d0: "completions [ev] = 0" by (simp add: ev completions_def)
    from thread_step_produce [OF Cons.prems(3,1), of fl True] Cons.prems(4) obtain nm' where
      st: "thread_step fl True e =
            Some (e\<lparr>obj := nm', queue := queue e @ [m_nBlockCurrent (obj e)], pc := AtWhile\<rparr>)"
      and c': "unat (m_nBlockCurrent nm') =
            (unat (m_nBlockCurrent (obj e)) + 1) mod unat (m_nBlockCount (obj e))"
      and r': "m_bReady nm' = m_bReady (obj e)"
      by auto
    from s ev st have e1: "e1 = e\<lparr>obj := nm', queue := queue e @ [m_nBlockCurrent (obj e)], pc := AtWhile\<rparr>"
      by (simp add: engine_step_def)
    have p1: "pc e1 = AtWhile" and r1: "\<not> m_bReady (obj e1)"
      using Cons.prems(2) r' by (simp_all add: e1)
    from run_after_pass [OF p1 r1 r] have "thread_steps evs \<le> 1"
      "pc e' = (if thread_steps evs = 0 then AtWhile else Exited)"
      "length (queue e') + completions evs = length (queue e1)"
      "m_nBlockCurrent (obj e') = m_nBlockCurrent (obj e1)"
      by simp_all
    with t1 d0 c' show ?thesis
      by (auto simp: event_counts_Cons [of ev evs] e1)
  qed
qed

lemma run_after_stop:
  assumes "pc e = Waiting" and "\<not> m_bReady (obj e)" and "engine_ok (obj e)"
    and "device e = Opened" and "ThreadStep False \<notin> set evs"
    and "engine_run fl evs e = Some e'"
  shows "thread_steps evs \<le> 2 \<and>
         pc e' = (if thread_steps evs = 0
                  then (if completions evs + wake_ups evs = 0 then Waiting else AtDecrement)
                  else if thread_steps evs = 1 then AtWhile else Exited) \<and>
         (completions evs + wake_ups evs = 0 \<longrightarrow> queue e' = queue e) \<and>
         (thread_steps evs = 0 \<longrightarrow>
            m_nBlockCurrent (obj e') = m_nBlockCurrent (obj e) \<and>
            length (queue e') + completions evs = length (queue e)) \<and>
         (0 < thread_steps evs \<longrightarrow>
            unat (m_nBlockCurrent (obj e')) =
              (unat (m_nBlockCurrent (obj e)) + 1) mod unat (m_nBlockCount (obj e)) \<and>
            length (queue e') + completions evs = length (queue e) + 1)"
  using assms
proof (induction evs arbitrary: e)
  case Nil
  then show ?case by (simp add: event_counts_Nil)
next
  case (Cons ev evs)
  from Cons.prems(6) obtain e1 where s: "engine_step fl ev e = Some e1"
    and r: "engine_run fl evs e1 = Some e'"
    by (cases "engine_step fl ev e") simp_all
  from Cons.prems(5) have accs: "ThreadStep False \<notin> set evs" by auto
  have t0: "thread_steps [ev] = 0"
  proof (rule ccontr)
    assume "thread_steps [ev] \<noteq> 0"
    then obtain accepted where "ev = ThreadStep accepted"
      by (auto simp: thread_steps_single split: if_splits)
    with s Cons.prems(1) show False by (simp add: engine_step_def thread_step_def)
  qed
  from other_event_frame [OF s t0] Cons.prems(1,2,3,4)
  have p1: "pc e1 = (if 0 < completions [ev] + wake_ups [ev] then AtDecrement else Waiting)"
    and r1: "\<not> m_bReady (obj e1)" and ok1: "engine_ok (obj e1)" and d1: "device e1 = Opened"
    and c1: "m_nBlockCurrent (obj e1) = m_nBlockCurrent (obj e)"
    and n1: "m_nBlockCount (obj e1) = m_nBlockCount (obj e)"
    and q1: "length (queue e1) + completions [ev] = length (queue e)"
    and qq: "completions [ev] = 0 \<longrightarrow> queue e1 = queue e"
    by simp_all
  show ?case
  proof (cases "0 < completions [ev] + wake_ups [ev]")
    case True
    with p1 have at: "pc e1 = AtDecrement" by simp
    from run_after_wake [OF at r1 ok1 d1 accs r]
    have "thread_steps evs \<le> 2"
      "pc e' = (if thread_steps evs = 0 then AtDecrement
                else if thread_steps evs = 1 then AtWhile else Exited)"
      "thread_steps evs = 0 \<longrightarrow>
            m_nBlockCurrent (obj e') = m_nBlockCurrent (obj e1) \<and>
            length (queue e') + completions evs = length (queue e1)"
      "0 < thread_steps evs \<longrightarrow>
            unat (m_nBlockCurrent (obj e')) =
              (unat (m_nBlockCurrent (obj e1)) + 1) mod unat (m_nBlockCount (obj e1)) \<and>
            length (queue e') + completions evs = length (queue e1) + 1"
      by simp_all
    with True t0 c1 n1 q1 show ?thesis
      by (auto simp: event_counts_Cons [of ev evs])
  next
    case False
    with p1 have w: "pc e1 = Waiting" by simp
    from False qq have same: "queue e1 = queue e" by simp
    from Cons.IH [OF w r1 ok1 d1 accs r]
    have "thread_steps evs \<le> 2"
      "pc e' = (if thread_steps evs = 0
                  then (if completions evs + wake_ups evs = 0 then Waiting else AtDecrement)
                  else if thread_steps evs = 1 then AtWhile else Exited)"
      "completions evs + wake_ups evs = 0 \<longrightarrow> queue e' = queue e1"
      "thread_steps evs = 0 \<longrightarrow>
            m_nBlockCurrent (obj e') = m_nBlockCurrent (obj e1) \<and>
            length (queue e') + completions evs = length (queue e1)"
      "0 < thread_steps evs \<longrightarrow>
            unat (m_nBlockCurrent (obj e')) =
              (unat (m_nBlockCurrent (obj e1)) + 1) mod unat (m_nBlockCount (obj e1)) \<and>
            length (queue e') + completions evs = length (queue e1) + 1"
      by simp_all
    with False t0 c1 n1 q1 same show ?thesis
      by (auto simp: event_counts_Cons [of ev evs])
  qed
qed

text \<open>
  What the schedule of one completion and two steps of the thread does after \<^verbatim>\<open>Stop\<close>.
\<close>

lemma stop_then_one_completion:
  assumes "pool_inv e" and "device e = Opened" and "pc e = Waiting" and "m_nBlockFree (obj e) = 0"
  shows "\<exists>e'. engine_run fl [Done, ThreadStep True, ThreadStep True] (Stop_flag e) = Some e' \<and>
            Stop_returns e' \<and>
            queue e' = tl (queue e) @ [m_nBlockCurrent (obj e)] \<and>
            length (queue e') = unat (m_nBlockCount (obj e)) \<and>
            m_nBlockFree (obj e') = 0"
proof -
  let ?e1 = "Stop_flag e"
  let ?N = "unat (m_nBlockCount (obj e))"
  have pc1: "pc ?e1 = Waiting" and q1: "queue ?e1 = queue e" and d1: "device ?e1 = Opened"
    and f1: "m_nBlockFree (obj ?e1) = 0" and r1: "\<not> m_bReady (obj ?e1)"
    and c1: "m_nBlockCurrent (obj ?e1) = m_nBlockCurrent (obj e)"
    and n1: "m_nBlockCount (obj ?e1) = m_nBlockCount (obj e)"
    using assms(2,3,4) by (simp_all add: Stop_flag_def)
  have i1: "pool_inv ?e1"
    using assms(1,3) by (simp add: Stop_flag_def pool_inv_def engine_ok_def)
  from assms(1) have "m_nBlockCurrent (obj e) < m_nBlockCount (obj e)"
    and sum: "unat (m_nBlockFree (obj e)) + length (queue e) = ?N"
    by (simp_all add: pool_inv_def engine_ok_def)
  then have Npos: "0 < ?N" by (simp add: word_less_nat_alt)
  from sum assms(4) have qlen: "length (queue e) = ?N" by simp
  with Npos obtain i rest where q: "queue e = i # rest" by (cases "queue e") auto
  let ?e2 = "?e1\<lparr>obj := waveOutProc WOM_DONE (obj ?e1), queue := rest, pc := AtDecrement\<rparr>"
  have s2: "sink_done ?e1 = Some ?e2" using q q1 pc1 by (simp add: sink_done_def)
  have i2: "pool_inv ?e2" by (rule pool_inv_sink_done [OF i1 s2, THEN conjunct1])
  have d2: "device ?e2 = Opened" using d1 by simp
  have pc2: "pc ?e2 = AtDecrement" by simp
  have f2: "m_nBlockFree (obj ?e2) = 1" using f1 by (simp add: waveOutProc_def)
  have r2: "\<not> m_bReady (obj ?e2)" using r1 by (simp add: waveOutProc_def)
  have c2: "m_nBlockCurrent (obj ?e2) = m_nBlockCurrent (obj e)" using c1 by (simp add: waveOutProc_def)
  from pool_inv_produce [OF i2 d2 pc2, of fl] obtain nm' where
    s3: "thread_step fl True ?e2 = Some (?e2\<lparr>obj := nm', queue := queue ?e2 @ [m_nBlockCurrent (obj ?e2)], pc := AtWhile\<rparr>)"
    and f3: "m_nBlockFree nm' = m_nBlockFree (obj ?e2) - 1"
    and r3: "m_bReady nm' = m_bReady (obj ?e2)"
    by blast
  let ?e3 = "?e2\<lparr>obj := nm', queue := queue ?e2 @ [m_nBlockCurrent (obj ?e2)], pc := AtWhile\<rparr>"
  let ?e4 = "?e3\<lparr>pc := Exited\<rparr>"
  have s4: "thread_step fl True ?e3 = Some ?e4" using r3 r2 by (simp add: thread_step_def)
  have run: "engine_run fl [Done, ThreadStep True, ThreadStep True] ?e1 = Some ?e4"
    using s2 s3 s4 by (simp add: engine_step_def)
  have "Stop_returns ?e4" by (simp add: Stop_returns_def)
  moreover have "queue ?e4 = tl (queue e) @ [m_nBlockCurrent (obj e)]" using q c2 by simp
  moreover have "length (queue ?e4) = ?N" using q qlen by simp
  moreover have "m_nBlockFree (obj ?e4) = 0" using f3 f2 by simp
  ultimately show ?thesis using run by blast
qed

text \<open>
  Claim C2, as the code has it. Let the thread be blocked in its wait with a free count of
  zero, all blocks being queued at the opened device, and let \<^verbatim>\<open>Stop\<close> clear the flag.
  Take any run from there in which the device accepts what is written to it. The thread
  has no step of its own, and it is still waiting, the queue untouched, for as long as
  there has been neither a completion nor another wake-up: clearing the flag releases
  nobody. Released, it makes one more pass (fills the current block and submits it),
  then tests the flag and exits: it takes two steps and no more, and \<^verbatim>\<open>Stop\<close> returns
  exactly when it has taken both. Nothing waits for the queued blocks or takes them back:
  from the pass on, the blocks queued and the completions reported since \<^verbatim>\<open>Stop\<close> add up
  to one more than the block count. With one completion followed at once by the thread's
  two steps, all blocks are queued when the thread exits.
\<close>

theorem stop_while_blocked:
  assumes "pool_inv e" and "device e = Opened" and "pc e = Waiting" and "m_nBlockFree (obj e) = 0"
    and "ThreadStep False \<notin> set evs"
    and "engine_run fl evs (Stop_flag e) = Some e'"
  shows "thread_step fl accepted (Stop_flag e) = None \<and>
         (completions evs + wake_ups evs = 0 \<longrightarrow> pc e' = Waiting \<and> queue e' = queue e) \<and>
         thread_steps evs \<le> 2 \<and>
         pc e' = (if thread_steps evs = 0
                  then (if completions evs + wake_ups evs = 0 then Waiting else AtDecrement)
                  else if thread_steps evs = 1 then AtWhile else Exited) \<and>
         Stop_returns e' = (thread_steps evs = 2) \<and>
         (thread_steps evs = 0 \<longrightarrow>
            m_nBlockCurrent (obj e') = m_nBlockCurrent (obj e) \<and>
            length (queue e') + completions evs = unat (m_nBlockCount (obj e))) \<and>
         (0 < thread_steps evs \<longrightarrow>
            unat (m_nBlockCurrent (obj e')) =
              (unat (m_nBlockCurrent (obj e)) + 1) mod unat (m_nBlockCount (obj e)) \<and>
            length (queue e') + completions evs = unat (m_nBlockCount (obj e)) + 1) \<and>
         (\<exists>e''. engine_run fl [Done, ThreadStep True, ThreadStep True] (Stop_flag e) = Some e'' \<and>
            Stop_returns e'' \<and>
            queue e'' = tl (queue e) @ [m_nBlockCurrent (obj e)] \<and>
            length (queue e'') = unat (m_nBlockCount (obj e)) \<and>
            m_nBlockFree (obj e'') = 0)"
proof -
  let ?e1 = "Stop_flag e"
  let ?N = "unat (m_nBlockCount (obj e))"
  have pc1: "pc ?e1 = Waiting" and q1: "queue ?e1 = queue e" and d1: "device ?e1 = Opened"
    and r1: "\<not> m_bReady (obj ?e1)"
    and c1: "m_nBlockCurrent (obj ?e1) = m_nBlockCurrent (obj e)"
    and n1: "m_nBlockCount (obj ?e1) = m_nBlockCount (obj e)"
    using assms(2,3) by (simp_all add: Stop_flag_def)
  from assms(1) have ok: "engine_ok (obj e)"
    and sum: "unat (m_nBlockFree (obj e)) + length (queue e) = ?N"
    by (simp_all add: pool_inv_def)
  from ok have ok1: "engine_ok (obj ?e1)" by (simp add: Stop_flag_def engine_ok_def)
  from sum assms(4) have qlen: "length (queue e) = ?N" by simp
  have blocked: "thread_step fl accepted ?e1 = None" using pc1 by (simp add: thread_step_def)
  from run_after_stop [OF pc1 r1 ok1 d1 assms(5,6)]
  have ts: "thread_steps evs \<le> 2"
    and pcs: "pc e' = (if thread_steps evs = 0
                  then (if completions evs + wake_ups evs = 0 then Waiting else AtDecrement)
                  else if thread_steps evs = 1 then AtWhile else Exited)"
    and quiet: "completions evs + wake_ups evs = 0 \<longrightarrow> queue e' = queue e"
    and before: "thread_steps evs = 0 \<longrightarrow>
            m_nBlockCurrent (obj e') = m_nBlockCurrent (obj e) \<and>
            length (queue e') + completions evs = ?N"
    and after: "0 < thread_steps evs \<longrightarrow>
            unat (m_nBlockCurrent (obj e')) = (unat (m_nBlockCurrent (obj e)) + 1) mod ?N \<and>
            length (queue e') + completions evs = ?N + 1"
    by (simp_all add: q1 c1 n1 qlen)
  have still: "completions evs + wake_ups evs = 0 \<longrightarrow> pc e' = Waiting \<and> queue e' = queue e"
  proof
    assume z: "completions evs + wake_ups evs = 0"
    have "thread_steps evs = 0"
    proof (rule ccontr)
      assume "thread_steps evs \<noteq> 0"
      then have "0 < thread_steps evs" by simp
      with after have "length (queue e') + completions evs = ?N + 1" by simp
      moreover from z have "completions evs = 0" by simp
      moreover from z quiet have "queue e' = queue e" by simp
      ultimately show False using qlen by simp
    qed
    with z pcs quiet show "pc e' = Waiting \<and> queue e' = queue e" by simp
  qed
  have ret: "Stop_returns e' = (thread_steps evs = 2)"
    using ts pcs by (auto simp: Stop_returns_def)
  from blocked still ts pcs ret before after
    stop_then_one_completion [OF assms(1,2,3,4), of fl]
  show ?thesis by (intro conjI)
qed

theorem stop_while_blocked_witness:
  "pool_inv e_blocked \<and> device e_blocked = Opened \<and> pc e_blocked = Waiting \<and>
   m_nBlockFree (obj e_blocked) = 0 \<and>
   ThreadStep False \<notin> set [Done, Done, ThreadStep True, ThreadStep True] \<and>
   engine_run id [Done, Done, ThreadStep True, ThreadStep True] (Stop_flag e_blocked) = Some e_drained \<and>
   thread_step id True (Stop_flag e_blocked) = None \<and>
   thread_steps [Done, Done, ThreadStep True, ThreadStep True] = 2 \<and>
   completions [Done, Done, ThreadStep True, ThreadStep True] = 2 \<and>
   Stop_returns e_drained \<and> m_nBlockCurrent (obj e_drained) = 1 \<and>
   length (queue e_drained) + 2 = unat (m_nBlockCount (obj e_blocked)) + 1"
proof -
  have p: "pc e_blocked = Waiting" and f: "m_nBlockFree (obj e_blocked) = 0"
    by (simp_all add: e_blocked_def)
  have a: "ThreadStep False \<notin> set [Done, Done, ThreadStep True, ThreadStep True]" by simp
  have t: "thread_steps [Done, Done, ThreadStep True, ThreadStep True] = 2"
    and c: "completions [Done, Done, ThreadStep True, ThreadStep True] = 2"
    by (simp_all add: thread_steps_def completions_def)
  from stop_while_blocked [OF e_blocked_inv [THEN conjunct1] e_blocked_inv [THEN conjunct2] p f a
      e_blocked_drained, of True]
    e_blocked_inv p f a e_blocked_drained t c
  show ?thesis by (simp add: e_blocked_def e_drained_def)
qed

text \<open>
  Claim C2 as stated fails on the engine of two blocks: after \<^verbatim>\<open>Stop\<close> has cleared the
  flag the blocked thread cannot move, and when it has exited, after one completion, two
  blocks are with the device, not zero.
\<close>

theorem stop_while_blocked_counterexample:
  "engine_run id fill_pool e_start = Some e_blocked \<and>
   pc e_blocked = Waiting \<and> m_nBlockFree (obj e_blocked) = 0 \<and>
   thread_step id True (Stop_flag e_blocked) = None \<and>
   engine_run id [Done, ThreadStep True, ThreadStep True] (Stop_flag e_blocked) = Some e_exited \<and>
   Stop_returns e_exited \<and> queue e_exited = [1, 0]"
  using e_start_run e_blocked_stop
  by (simp add: e_blocked_def e_exited_def Stop_flag_def thread_step_def Stop_returns_def)

section \<open>Properties of the registry mutex\<close>



lemma read_frequencies_map:
  "read_frequencies (map (\<lambda>key. ReadNote (fst key) (snd key)) ns @ as) = map snd ns @ read_frequencies as"
  by (induction ns) simp_all

lemma MakeNoise_actions_reads:
  "read_frequencies (MakeSineNoise_actions am) = map snd (m_activeNotes am)"
  "read_frequencies (MakeSquareNoise_actions am) = map snd (m_activeNotes am)"
  by (simp_all add: MakeSineNoise_actions_def MakeSquareNoise_actions_def read_frequencies_map)

lemma HandleKeyDown_actions_apply:
  "apply_actions (HandleKeyDown_actions wParam am) am = HandleKeyDown wParam am"
  by (simp add: HandleKeyDown_actions_def HandleKeyDown_def MapNoteFrequency_def split: option.split)

lemma HandleKeyUp_actions_apply:
  "apply_actions (HandleKeyUp_actions wParam am) am = HandleKeyUp wParam am"
  by (simp add: HandleKeyUp_actions_def HandleKeyUp_def)

lemma SetWaveType_actions_apply:
  "apply_actions (SetWaveType_actions type am) am = SetWaveType type am"
  by (simp add: SetWaveType_actions_def SetWaveType_def)

lemma StaticNoiseCallback_actions_value:
  "StaticNoiseCallback (Some am) t =
     0.5 * (\<Sum>f\<leftarrow>read_frequencies (StaticNoiseCallback_actions (Some am)).
        (case m_currentWaveType am of Sine \<Rightarrow> SineSoundMaker | Square \<Rightarrow> SquareSoundMaker) f t)"
proof -
  have "read_frequencies (StaticNoiseCallback_actions (Some am)) = map snd (m_activeNotes am)"
    by (simp add: StaticNoiseCallback_actions_def MakeNoise_actions_reads split: WaveType.split)
  then show ?thesis
    by (simp only: StaticNoiseCallback_sum) (simp add: comp_def)
qed



end
